theory Spec2Isabelle
  imports Complex_Main "HOL-Library.Monad_Syntax" "HOL-Library.Multiset" "HOL-Library.Char_ord"
    "HOL-Library.List_Lexorder" "HOL-Library.Product_Lexorder"
begin

section \<open>Data model\<close>

text \<open>
  The grouping engine is the body of \<open>handleGenerateGroups\<close> (with its helper
  \<open>shuffleArray\<close>) of the React component \<open>App\<close>.  A constraint is the type
  \<open>Constraint = { people: string[] }\<close> of \<open>types.ts\<close>.  The component state that the
  engine reads is passed as arguments: \<open>namingMethod\<close>, \<open>finalGroupCount\<close> (the value
  computed at the top of the handler), the list \<open>people\<close> (called \<open>persons\<close> below,
  since \<open>people\<close> is the field of a constraint), \<open>apartConstraints\<close> and
  \<open>togetherConstraints\<close>.

  A \<open>char\<close> stands for one code unit of a JavaScript string; the order on strings
  is the lexicographic order on code units, which is the order of the default
  \<open>Array.prototype.sort\<close>.
\<close>

record Constraint =
  people :: "string list"

datatype namingMethod = Count | Custom

text \<open>
  The messages set with \<open>setError\<close>, named after their translation keys.  In the
  words of the specification: \<open>ErrorMorePeople\<close> is InsufficientPeople,
  \<open>ErrorConflict\<close> is ConflictingConstraint, \<open>ErrorCliqueSize\<close> is OversizedClique and
  \<open>ErrorFailedConstraints\<close> is UnsatisfiableConstraints.
\<close>

datatype error =
    ErrorMinTwoCustom
  | ErrorMorePeople
  | ErrorConflict string string
  | ErrorCliqueSize
  | ErrorFailedConstraints
  | UncaughtTypeError

text \<open>
  \<open>UncaughtTypeError\<close> is not a message: it stands for a \<open>TypeError\<close> thrown inside the
  timer callback.  Nothing catches it there, the promise is never settled, and the handler
  neither sets an error nor delivers groups.
\<close>

datatype exception = TypeError

section \<open>Union-find over the together-constraints\<close>

text \<open>
  \<open>parent\<close> and \<open>cliques\<close> are plain objects (\<open>{}\<close>) used as dictionaries, so they
  inherit from \<open>Object.prototype\<close>.  A read of a property that the object does not own
  gives the inherited value: \<open>Object.prototype\<close> itself for \<open>__proto__\<close>, a built-in
  function for names such as \<open>constructor\<close> or \<open>toString\<close>, and \<open>undefined\<close> for every
  other name.  \<open>find\<close> is then called with that value, which is converted to a property
  key: \<open>undefined\<close> to the string \<open>undefined\<close>, \<open>Object.prototype\<close> to
  \<open>[object Object]\<close>, a built-in function to its source text, here as V8 prints it
  (\<open>function toString() { [native code] }\<close>); the inherited \<open>constructor\<close> is the
  function named \<open>Object\<close>.  An \<open>obj\<close> is the map of the own properties, and
  \<open>Inherited name\<close> is the built-in function that \<open>Object.prototype\<close> holds under
  \<open>name\<close>.
\<close>

datatype val = Undefined | Str string | ObjectPrototype | Inherited string

definition inherited_names :: "string list" where
  "inherited_names =
     [''constructor'', ''__defineGetter__'', ''__defineSetter__'', ''hasOwnProperty'',
      ''__lookupGetter__'', ''__lookupSetter__'', ''isPrototypeOf'', ''propertyIsEnumerable'',
      ''toString'', ''valueOf'', ''toLocaleString'']"

definition function_name :: "string \<Rightarrow> string" where
  "function_name name = (if name = ''constructor'' then ''Object'' else name)"

fun key :: "val \<Rightarrow> string" where
  "key Undefined = ''undefined''"
| "key (Str s) = s"
| "key ObjectPrototype = ''[object Object]''"
| "key (Inherited name) = ''function '' @ function_name name @ ''() { [native code] }''"

definition from_prototype :: "string \<Rightarrow> val" where
  "from_prototype k =
     (if k = ''__proto__'' then ObjectPrototype
      else if k \<in> set inherited_names then Inherited k
      else Undefined)"

type_synonym obj = "string \<rightharpoonup> val"

definition getprop :: "obj \<Rightarrow> val \<Rightarrow> val" where
  "getprop parent i = (case parent (key i) of None \<Rightarrow> from_prototype (key i) | Some v \<Rightarrow> v)"

text \<open>
  An assignment \<open>parent[i] = v\<close> creates or overwrites an own property, except for the
  key \<open>__proto__\<close>: that assignment calls the inherited setter, which ignores a value that
  is neither an object nor \<open>null\<close>.  The values assigned here are strings and results of
  \<open>find\<close>, which are strings or \<open>undefined\<close> (lemma \<open>find_parent_total\<close>).
\<close>

definition setprop :: "obj \<Rightarrow> val \<Rightarrow> val \<Rightarrow> obj" where
  "setprop parent i v = (if key i = ''__proto__'' then parent else parent(key i \<mapsto> v))"

text \<open>
  \<open>find = (i) => (parent[i] === i ? i : (parent[i] = find(parent[i])))\<close>.  The
  recursion follows the parent pointers, so the function is partial: \<open>None\<close> is a
  call that does not return.
\<close>

partial_function (option) find_parent :: "obj \<Rightarrow> val \<Rightarrow> (val \<times> obj) option" where
  "find_parent parent i =
     (if getprop parent i = i then Some (i, parent)
      else do {
        (r, parent') \<leftarrow> find_parent parent (getprop parent i);
        Some (r, setprop parent' i r)
      })"

declare find_parent.simps [code]

definition union_parent :: "obj \<Rightarrow> val \<Rightarrow> val \<Rightarrow> obj option" where
  "union_parent parent i j = do {
     (rootI, parent1) \<leftarrow> find_parent parent i;
     (rootJ, parent2) \<leftarrow> find_parent parent1 j;
     Some (if rootI \<noteq> rootJ then setprop parent2 rootJ rootI else parent2)
   }"

text \<open>\<open>for (let i = 0; i < c.people.length - 1; i++) union(c.people[i], c.people[i+1])\<close>\<close>

fun union_consecutive :: "obj \<Rightarrow> string list \<Rightarrow> obj option" where
  "union_consecutive parent (a # b # rest) = do {
     parent' \<leftarrow> union_parent parent (Str a) (Str b);
     union_consecutive parent' (b # rest)
   }"
| "union_consecutive parent [a] = Some parent"
| "union_consecutive parent [] = Some parent"

fun union_all :: "obj \<Rightarrow> Constraint list \<Rightarrow> obj option" where
  "union_all parent [] = Some parent"
| "union_all parent (c # cs) = do {
     parent' \<leftarrow> union_consecutive parent (people c);
     union_all parent' cs
   }"

text \<open>\<open>people.forEach(p => parent[p] = p)\<close>\<close>

definition init_parent :: "string list \<Rightarrow> obj" where
  "init_parent persons = fold (\<lambda>p parent. setprop parent (Str p) (Str p)) persons Map.empty"

section \<open>Units\<close>

text \<open>
  \<open>cliques\<close> is a plain object whose values are arrays: its own properties in the
  order of their creation.  \<open>if (!cliques[root]) cliques[root] = []; cliques[root].push(p)\<close>
  creates the property on its first use and appends to it afterwards.
\<close>

fun push_clique :: "string \<Rightarrow> string \<Rightarrow> (string \<times> string list) list \<Rightarrow> (string \<times> string list) list" where
  "push_clique k p [] = [(k, [p])]"
| "push_clique k p ((k', ms) # rest) =
     (if k' = k then (k', ms @ [p]) # rest else (k', ms) # push_clique k p rest)"

text \<open>
  When \<open>cliques\<close> does not own the key but inherits a value for it, that value is an
  object or a function: \<open>!cliques[root]\<close> is false, no array is created, and
  \<open>cliques[root].push\<close> is not a function, so the call throws a \<open>TypeError\<close>.
\<close>

definition push_checked :: "string \<Rightarrow> string \<Rightarrow> (string \<times> string list) list \<Rightarrow> exception + (string \<times> string list) list" where
  "push_checked k p cliques =
     (if map_of cliques k = None \<and> from_prototype k \<noteq> Undefined then Inl TypeError
      else Inr (push_clique k p cliques))"

text \<open>\<open>people.forEach(p => { const root = find(p); ... })\<close>\<close>

fun build_cliques :: "obj \<Rightarrow> (string \<times> string list) list \<Rightarrow> string list \<Rightarrow> (exception + (string \<times> string list) list) option" where
  "build_cliques parent cliques [] = Some (Inr cliques)"
| "build_cliques parent cliques (p # ps) = do {
     (root, parent') \<leftarrow> find_parent parent (Str p);
     case push_checked (key root) p cliques of
       Inl e \<Rightarrow> Some (Inl e)
     | Inr cliques' \<Rightarrow> build_cliques parent' cliques' ps
   }"

text \<open>
  \<open>Object.values\<close> lists the properties whose names are array indices (canonical
  decimal numerals up to \<open>2^32 - 2\<close>) first, in ascending numeric order, and then
  the other properties in the order of their creation.
\<close>

definition is_digit :: "char \<Rightarrow> bool" where
  "is_digit c = (CHR ''0'' \<le> c \<and> c \<le> CHR ''9'')"

definition index_value :: "string \<Rightarrow> int" where
  "index_value s = fold (\<lambda>c n. 10 * n + (of_char c - 48)) s 0"

definition is_array_index :: "string \<Rightarrow> bool" where
  "is_array_index s =
     (s \<noteq> [] \<and> list_all is_digit s \<and> (s = ''0'' \<or> hd s \<noteq> CHR ''0'') \<and> index_value s \<le> 4294967294)"

definition Object_values :: "(string \<times> 'a) list \<Rightarrow> 'a list" where
  "Object_values props =
     map snd (sort_key (\<lambda>kv. index_value (fst kv)) (filter (\<lambda>kv. is_array_index (fst kv)) props)
              @ filter (\<lambda>kv. \<not> is_array_index (fst kv)) props)"

text \<open>The units of one attempt: \<open>shuffleUnits = Object.values(cliques)\<close>.\<close>

definition make_units :: "string list \<Rightarrow> Constraint list \<Rightarrow> (exception + string list list) option" where
  "make_units persons togetherConstraints = do {
     parent \<leftarrow> union_all (init_parent persons) togetherConstraints;
     built \<leftarrow> build_cliques parent [] persons;
     case built of
       Inl e \<Rightarrow> Some (Inl e)
     | Inr cliques \<Rightarrow> Some (Inr (Object_values cliques))
   }"

text \<open>
  \<open>unit.length > Math.ceil(people.length / finalGroupCount)\<close>.  The quotient of a
  division by zero is \<open>Infinity\<close> or \<open>NaN\<close>, and the comparison is then false.
\<close>

definition exceeds_ceiling :: "nat \<Rightarrow> nat \<Rightarrow> int \<Rightarrow> bool" where
  "exceeds_ceiling len n finalGroupCount =
     (finalGroupCount \<noteq> 0 \<and> int len > - ((- int n) div finalGroupCount))"

section \<open>Shuffling\<close>

text \<open>
  The random source is the sequence \<open>rnd\<close> of the draws and the number \<open>pos\<close> of
  draws consumed so far.  \<open>Math.floor(Math.random() * currentIndex)\<close> is an integer
  from \<open>0\<close> to \<open>currentIndex - 1\<close>; the model takes the next draw modulo
  \<open>currentIndex\<close>, so that every index in that range is the outcome of some draw.

  \<open>shuffleArray\<close> swaps in place: \<open>currentIndex\<close> is decremented after the draw, and
  \<open>[array[currentIndex], array[randomIndex]] = [array[randomIndex], array[currentIndex]]\<close>
  reads both elements before it writes them.
\<close>

fun shuffle_loop :: "nat \<Rightarrow> 'a list \<Rightarrow> (nat \<Rightarrow> nat) \<Rightarrow> nat \<Rightarrow> 'a list \<times> nat" where
  "shuffle_loop 0 array rnd pos = (array, pos)"
| "shuffle_loop (Suc currentIndex) array rnd pos =
     (let randomIndex = rnd pos mod Suc currentIndex
      in shuffle_loop currentIndex
           (array[currentIndex := array ! randomIndex, randomIndex := array ! currentIndex])
           rnd (Suc pos))"

text \<open>The random source all of whose draws are \<open>0\<close>.\<close>

definition zero_draws :: "nat \<Rightarrow> nat" where
  "zero_draws n = 0"

definition shuffleArray :: "'a list \<Rightarrow> (nat \<Rightarrow> nat) \<Rightarrow> nat \<Rightarrow> 'a list \<times> nat" where
  "shuffleArray array rnd pos = shuffle_loop (length array) array rnd pos"

section \<open>Greedy packing\<close>

definition groupHasApartPerson :: "Constraint list \<Rightarrow> string list \<Rightarrow> string list \<Rightarrow> bool" where
  "groupHasApartPerson apartConstraints members unit =
     list_ex (\<lambda>personInGroup.
       list_ex (\<lambda>personInUnit.
         list_ex (\<lambda>c. personInGroup \<in> set (people c) \<and> personInUnit \<in> set (people c))
           apartConstraints) unit) members"

text \<open>
  \<open>tempGroups.map((g, i) => ({g, i})).sort((a, b) => a.g.length - b.g.length).map(item => item.i)\<close>:
  the sort of an array is stable, as \<open>sort_key\<close> is.
\<close>

definition groupOrder :: "string list list \<Rightarrow> nat list" where
  "groupOrder tempGroups = sort_key (\<lambda>i. length (tempGroups ! i)) [0..<length tempGroups]"

text \<open>The loop \<open>for (const i of groupOrder)\<close>; \<open>None\<close> is \<open>placed = false\<close>.\<close>

fun scan_groups :: "Constraint list \<Rightarrow> string list list \<Rightarrow> string list \<Rightarrow> nat list \<Rightarrow> string list list option" where
  "scan_groups apartConstraints tempGroups unit [] = None"
| "scan_groups apartConstraints tempGroups unit (i # rest) =
     (if \<not> groupHasApartPerson apartConstraints (tempGroups ! i) unit
      then Some (tempGroups[i := tempGroups ! i @ unit])
      else scan_groups apartConstraints tempGroups unit rest)"

text \<open>The loop \<open>for (const unit of shuffledUnits)\<close>; \<open>None\<close> is \<open>possible = false\<close>.\<close>

fun place_units :: "Constraint list \<Rightarrow> string list list \<Rightarrow> string list list \<Rightarrow> string list list option" where
  "place_units apartConstraints tempGroups [] = Some tempGroups"
| "place_units apartConstraints tempGroups (unit # units) =
     (case scan_groups apartConstraints tempGroups unit (groupOrder tempGroups) of
        None \<Rightarrow> None
      | Some tempGroups' \<Rightarrow> place_units apartConstraints tempGroups' units)"

text \<open>
  One pass of the attempt loop after the size check: fresh groups
  (\<open>Array.from({ length: finalGroupCount }, () => [])\<close>, empty for a length that is
  not positive), the shuffle and the placement.
\<close>

definition one_attempt :: "int \<Rightarrow> Constraint list \<Rightarrow> string list list \<Rightarrow> (nat \<Rightarrow> nat) \<Rightarrow> nat \<Rightarrow> string list list option \<times> nat" where
  "one_attempt finalGroupCount apartConstraints shuffleUnits rnd pos =
     (let tempGroups = replicate (nat finalGroupCount) [];
          (shuffledUnits, pos') = shuffleArray shuffleUnits rnd pos
      in (place_units apartConstraints tempGroups shuffledUnits, pos'))"

text \<open>
  The loop \<open>for (let attempt = 0; attempt < 50; attempt++)\<close> and what follows it.  The
  union-find and the units are computed again in every pass.  The result is the
  error set or the sorted groups, with the number of draws consumed; a \<open>TypeError\<close>
  thrown while the units are built leaves the loop and the callback.
\<close>

function attempt_loop :: "nat \<Rightarrow> int \<Rightarrow> string list \<Rightarrow> Constraint list \<Rightarrow> Constraint list \<Rightarrow> (nat \<Rightarrow> nat) \<Rightarrow> nat \<Rightarrow> ((error + string list list) \<times> nat) option" where
  "attempt_loop attempt finalGroupCount persons apartConstraints togetherConstraints rnd pos =
     (if attempt < 50 then
        (case make_units persons togetherConstraints of
           None \<Rightarrow> None
         | Some (Inl TypeError) \<Rightarrow> Some (Inl UncaughtTypeError, pos)
         | Some (Inr shuffleUnits) \<Rightarrow>
             if list_ex (\<lambda>unit. exceeds_ceiling (length unit) (length persons) finalGroupCount) shuffleUnits
             then Some (Inl ErrorCliqueSize, pos)
             else (case one_attempt finalGroupCount apartConstraints shuffleUnits rnd pos of
                     (Some tempGroups, pos') \<Rightarrow> Some (Inr (map sort tempGroups), pos')
                   | (None, pos') \<Rightarrow>
                       attempt_loop (attempt + 1) finalGroupCount persons apartConstraints
                         togetherConstraints rnd pos'))
      else Some (Inl ErrorFailedConstraints, pos))"
  by pat_completeness auto
termination
  by (relation "measure (\<lambda>(attempt, _). 50 - attempt)") auto

declare attempt_loop.simps [simp del]

section \<open>Validation and the handler\<close>

text \<open>\<open>new Set(xs)\<close> keeps the first occurrence of every element, in order.\<close>

definition new_Set :: "'a list \<Rightarrow> 'a list" where
  "new_Set xs = fold (\<lambda>x s. if x \<in> set s then s else s @ [x]) xs []"

text \<open>The body of the two loops over the constraints, for one pair.\<close>

definition conflicted :: "Constraint \<Rightarrow> Constraint \<Rightarrow> (string \<times> string) option" where
  "conflicted apart together =
     (let apartSet = new_Set (people apart);
          togetherSet = new_Set (people together);
          intersection = new_Set (filter (\<lambda>x. x \<in> set togetherSet) apartSet)
      in if length intersection \<ge> 2 then Some (intersection ! 0, intersection ! 1) else None)"

fun conflict_together :: "Constraint \<Rightarrow> Constraint list \<Rightarrow> (string \<times> string) option" where
  "conflict_together apart [] = None"
| "conflict_together apart (together # rest) =
     (case conflicted apart together of
        Some names \<Rightarrow> Some names
      | None \<Rightarrow> conflict_together apart rest)"

fun conflict_apart :: "Constraint list \<Rightarrow> Constraint list \<Rightarrow> (string \<times> string) option" where
  "conflict_apart [] togetherConstraints = None"
| "conflict_apart (apart # rest) togetherConstraints =
     (case conflict_together apart togetherConstraints of
        Some names \<Rightarrow> Some names
      | None \<Rightarrow> conflict_apart rest togetherConstraints)"

definition handleGenerateGroups :: "namingMethod \<Rightarrow> int \<Rightarrow> string list \<Rightarrow> Constraint list \<Rightarrow> Constraint list \<Rightarrow> (nat \<Rightarrow> nat) \<Rightarrow> nat \<Rightarrow> ((error + string list list) \<times> nat) option" where
  "handleGenerateGroups naming finalGroupCount persons apartConstraints togetherConstraints rnd pos =
     (if naming = Custom \<and> finalGroupCount < 2 then Some (Inl ErrorMinTwoCustom, pos)
      else if int (length persons) < finalGroupCount then Some (Inl ErrorMorePeople, pos)
      else (case conflict_apart apartConstraints togetherConstraints of
              Some (a, b) \<Rightarrow> Some (Inl (ErrorConflict a b), pos)
            | None \<Rightarrow>
                attempt_loop 0 finalGroupCount persons apartConstraints togetherConstraints rnd pos))"

section \<open>Notions for the statements and proofs\<close>

text \<open>
  \<open>root_of parent x r\<close>: following the parent pointers from \<open>x\<close> ends at \<open>r\<close>, a
  value that is its own parent.  \<open>rooted\<close> says that this holds for some \<open>r\<close> from every
  value; it is the invariant under which \<open>find\<close> returns.
\<close>

inductive root_of :: "obj \<Rightarrow> val \<Rightarrow> val \<Rightarrow> bool" for parent :: obj where
  root: "getprop parent x = x \<Longrightarrow> root_of parent x x"
| step: "getprop parent x \<noteq> x \<Longrightarrow> root_of parent (getprop parent x) r \<Longrightarrow> root_of parent x r"

definition rooted :: "obj \<Rightarrow> bool" where
  "rooted parent = (\<forall>x. \<exists>r. root_of parent x r)"

text \<open>
  The values that the code stores are strings and \<open>undefined\<close>, never an object, and no
  table owns the property \<open>__proto__\<close>.  \<open>wf_parent\<close> is the invariant of the parent
  tables of one attempt.
\<close>

definition plain :: "val \<Rightarrow> bool" where
  "plain v = (case v of Undefined \<Rightarrow> True | Str s \<Rightarrow> True | ObjectPrototype \<Rightarrow> False | Inherited name \<Rightarrow> False)"

definition own_plain :: "obj \<Rightarrow> bool" where
  "own_plain parent = (parent ''__proto__'' = None \<and> (\<forall>k v. parent k = Some v \<longrightarrow> plain v))"

definition wf_parent :: "obj \<Rightarrow> bool" where
  "wf_parent parent = (rooted parent \<and> own_plain parent)"

text \<open>Two parent tables with the same roots, and two values with the same root.\<close>

definition same_roots :: "obj \<Rightarrow> obj \<Rightarrow> bool" where
  "same_roots parent parent' = (\<forall>x r. root_of parent x r \<longleftrightarrow> root_of parent' x r)"

definition same_root :: "obj \<Rightarrow> val \<Rightarrow> val \<Rightarrow> bool" where
  "same_root parent x y = (\<exists>r. root_of parent x r \<and> root_of parent y r)"

text \<open>A later parent table keeps together what an earlier one had together.\<close>

definition grows :: "obj \<Rightarrow> obj \<Rightarrow> bool" where
  "grows p p' = (\<forall>x y. same_root p x y \<longrightarrow> same_root p' x y)"

text \<open>
  The together-graph: two names are linked when a chain of together-constraints
  leads from one to the other.
\<close>

inductive together_linked :: "Constraint list \<Rightarrow> string \<Rightarrow> string \<Rightarrow> bool"
  for togetherConstraints :: "Constraint list" where
  self: "together_linked togetherConstraints a a"
| member: "c \<in> set togetherConstraints \<Longrightarrow> a \<in> set (people c) \<Longrightarrow> b \<in> set (people c) \<Longrightarrow>
     together_linked togetherConstraints a b"
| chain: "together_linked togetherConstraints a b \<Longrightarrow> together_linked togetherConstraints b c \<Longrightarrow>
     together_linked togetherConstraints a c"

text \<open>All names of a list have the same root.\<close>

definition all_same :: "obj \<Rightarrow> string list \<Rightarrow> bool" where
  "all_same parent xs = (\<forall>a\<in>set xs. \<forall>b\<in>set xs. same_root parent (Str a) (Str b))"

text \<open>The person \<open>p\<close> is a member of the clique stored under the key of its root.\<close>

definition filed :: "obj \<Rightarrow> (string \<times> string list) list \<Rightarrow> string \<Rightarrow> bool" where
  "filed parent cliques p =
     (\<exists>r ms. root_of parent (Str p) r \<and> (key r, ms) \<in> set cliques \<and> p \<in> set ms)"




text \<open>The size check of one attempt, on its units.\<close>

definition oversized :: "string list \<Rightarrow> int \<Rightarrow> string list list \<Rightarrow> bool" where
  "oversized persons finalGroupCount units =
     list_ex (\<lambda>unit. exceeds_ceiling (length unit) (length persons) finalGroupCount) units"

text \<open>
  The outcome of attempt number \<open>k\<close> (from 0) when all attempts before it failed: every
  attempt consumes one draw per unit.
\<close>

definition attempt_at :: "int \<Rightarrow> Constraint list \<Rightarrow> string list list \<Rightarrow> (nat \<Rightarrow> nat) \<Rightarrow> nat \<Rightarrow> nat \<Rightarrow> string list list option" where
  "attempt_at finalGroupCount apartConstraints units rnd pos k =
     fst (one_attempt finalGroupCount apartConstraints units rnd (pos + k * length units))"

text \<open>
  The conflict check in the words of the specification: the pairs of an
  apart-constraint and a together-constraint in iteration order (apart-constraints
  outermost), the first pair that shares at least two people, and the first two shared
  names in the order of the apart-constraint.
\<close>

definition shared_names :: "Constraint \<Rightarrow> Constraint \<Rightarrow> string list" where
  "shared_names apart together =
     filter (\<lambda>x. x \<in> set (people together)) (new_Set (people apart))"

definition first_conflict :: "Constraint list \<Rightarrow> Constraint list \<Rightarrow> (string \<times> string) option" where
  "first_conflict apartConstraints togetherConstraints =
     (case find (\<lambda>(apart, together). 2 \<le> card (set (people apart) \<inter> set (people together)))
             (List.product apartConstraints togetherConstraints) of
        None \<Rightarrow> None
      | Some (apart, together) \<Rightarrow>
          Some (shared_names apart together ! 0, shared_names apart together ! 1))"

text \<open>
  One packing attempt in the words of the specification: the groups from the smallest
  current size to the largest, ties broken by the group index; a group is eligible when
  no member of it and no member of the unit are in one apart-constraint; the unit goes to
  the first eligible group.
\<close>

definition candidate_order :: "string list list \<Rightarrow> nat list" where
  "candidate_order groups = sort_key (\<lambda>i. (length (groups ! i), i)) [0..<length groups]"

definition eligible :: "Constraint list \<Rightarrow> string list \<Rightarrow> string list \<Rightarrow> bool" where
  "eligible apartConstraints members unit =
     (\<not> (\<exists>p\<in>set members. \<exists>q\<in>set unit. \<exists>c\<in>set apartConstraints.
            p \<in> set (people c) \<and> q \<in> set (people c)))"

definition place_first :: "Constraint list \<Rightarrow> string list list \<Rightarrow> string list \<Rightarrow> string list list option" where
  "place_first apartConstraints groups unit =
     (case find (\<lambda>i. eligible apartConstraints (groups ! i) unit) (candidate_order groups) of
        None \<Rightarrow> None
      | Some i \<Rightarrow> Some (groups[i := groups ! i @ unit]))"

fun pack_units :: "Constraint list \<Rightarrow> string list list \<Rightarrow> string list list \<Rightarrow> string list list option" where
  "pack_units apartConstraints groups [] = Some groups"
| "pack_units apartConstraints groups (unit # units) =
     (case place_first apartConstraints groups unit of
        None \<Rightarrow> None
      | Some groups' \<Rightarrow> pack_units apartConstraints groups' units)"

text \<open>
  The same handler over an explicit store, to state what a call mutates.  Arrays
  and constraint objects live at addresses; the handler receives the addresses of
  \<open>people\<close>, \<open>apartConstraints\<close> and \<open>togetherConstraints\<close>.  Every array that the code
  creates (\<open>[]\<close>, \<open>Object.values\<close>, \<open>Array.from\<close>, \<open>map\<close>) is a new cell at the end of
  the store, and every operation that works in place (\<open>push\<close>, the swap of
  \<open>shuffleArray\<close>, \<open>sort\<close>) overwrites the cell of the array it is called on.  The
  objects \<open>parent\<close> and \<open>cliques\<close> are local dictionaries and stay values; the arrays held
  by \<open>cliques\<close> are cells.  The sets and arrays of the conflict check and the array
  \<open>groupOrder\<close> are temporaries that are read once and dropped; they stay values too.
  A call returns its outcome, the number of draws consumed and the final store.

  A cell is an array of strings, an array of addresses (of arrays or of constraints), or
  a constraint object, whose field \<open>people\<close> holds the address of an array of strings.
\<close>

datatype cell = Strings "string list" | Refs "nat list" | ConstraintObj nat

definition strings_at :: "cell list \<Rightarrow> nat \<Rightarrow> string list" where
  "strings_at s a = (case s ! a of Strings xs \<Rightarrow> xs | _ \<Rightarrow> [])"

definition refs_at :: "cell list \<Rightarrow> nat \<Rightarrow> nat list" where
  "refs_at s a = (case s ! a of Refs xs \<Rightarrow> xs | _ \<Rightarrow> [])"

definition constraint_at :: "cell list \<Rightarrow> nat \<Rightarrow> Constraint" where
  "constraint_at s a =
     (case s ! a of ConstraintObj p \<Rightarrow> \<lparr>people = strings_at s p\<rparr> | _ \<Rightarrow> \<lparr>people = []\<rparr>)"

definition constraints_at :: "cell list \<Rightarrow> nat \<Rightarrow> Constraint list" where
  "constraints_at s a = map (constraint_at s) (refs_at s a)"

definition alloc :: "cell list \<Rightarrow> cell \<Rightarrow> cell list \<times> nat" where
  "alloc s c = (s @ [c], length s)"

text \<open>\<open>array.push(...items)\<close>, in place.\<close>

definition push_store :: "nat \<Rightarrow> string list \<Rightarrow> cell list \<Rightarrow> cell list" where
  "push_store a items s = s[a := Strings (strings_at s a @ items)]"

text \<open>\<open>if (!cliques[root]) cliques[root] = []; cliques[root].push(p)\<close>\<close>

definition push_clique_store :: "string \<Rightarrow> string \<Rightarrow> (string \<times> nat) list \<Rightarrow> cell list \<Rightarrow> (string \<times> nat) list \<times> cell list" where
  "push_clique_store k p cliques s =
     (case map_of cliques k of
        None \<Rightarrow> (let (s', a) = alloc s (Strings []) in (cliques @ [(k, a)], push_store a [p] s'))
      | Some a \<Rightarrow> (cliques, push_store a [p] s))"

text \<open>
  \<open>people.forEach(p => { const root = find(p); ... })\<close>, with the \<open>TypeError\<close> of
  \<open>cliques[root].push\<close> for an inherited value.
\<close>

fun build_cliques_store :: "obj \<Rightarrow> (string \<times> nat) list \<Rightarrow> string list \<Rightarrow> cell list \<Rightarrow> ((exception + (string \<times> nat) list) \<times> cell list) option" where
  "build_cliques_store parent cliques [] s = Some (Inr cliques, s)"
| "build_cliques_store parent cliques (p # ps) s = do {
     (root, parent') \<leftarrow> find_parent parent (Str p);
     if map_of cliques (key root) = None \<and> from_prototype (key root) \<noteq> Undefined
     then Some (Inl TypeError, s)
     else (case push_clique_store (key root) p cliques s of
             (cliques', s') \<Rightarrow> build_cliques_store parent' cliques' ps s')
   }"

text \<open>The units of one attempt: the address of the new array \<open>Object.values(cliques)\<close>.\<close>

definition make_units_store :: "nat \<Rightarrow> nat \<Rightarrow> cell list \<Rightarrow> ((exception + nat) \<times> cell list) option" where
  "make_units_store peopleRef togetherRef s = do {
     parent \<leftarrow> union_all (init_parent (strings_at s peopleRef)) (constraints_at s togetherRef);
     (built, s') \<leftarrow> build_cliques_store parent [] (strings_at s peopleRef) s;
     case built of
       Inl e \<Rightarrow> Some (Inl e, s')
     | Inr cliques \<Rightarrow>
         (case alloc s' (Refs (Object_values cliques)) of
            (s'', shuffleUnits) \<Rightarrow> Some (Inr shuffleUnits, s''))
   }"

text \<open>\<open>Array.from({ length: finalGroupCount }, () => [])\<close>: the new empty arrays.\<close>

fun alloc_groups :: "nat \<Rightarrow> cell list \<Rightarrow> nat list \<times> cell list" where
  "alloc_groups 0 s = ([], s)"
| "alloc_groups (Suc n) s =
     (let (s', a) = alloc s (Strings []); (as, s'') = alloc_groups n s' in (a # as, s''))"

text \<open>\<open>shuffleArray\<close> swaps inside the array it is given and returns that array.\<close>

fun shuffle_loop_store :: "nat \<Rightarrow> nat \<Rightarrow> (nat \<Rightarrow> nat) \<Rightarrow> nat \<Rightarrow> cell list \<Rightarrow> cell list \<times> nat" where
  "shuffle_loop_store 0 array rnd pos s = (s, pos)"
| "shuffle_loop_store (Suc currentIndex) array rnd pos s =
     (let randomIndex = rnd pos mod Suc currentIndex; xs = refs_at s array
      in shuffle_loop_store currentIndex array rnd (Suc pos)
           (s[array := Refs (xs[currentIndex := xs ! randomIndex, randomIndex := xs ! currentIndex])]))"

definition shuffleArray_store :: "nat \<Rightarrow> (nat \<Rightarrow> nat) \<Rightarrow> nat \<Rightarrow> cell list \<Rightarrow> cell list \<times> nat" where
  "shuffleArray_store array rnd pos s = shuffle_loop_store (length (refs_at s array)) array rnd pos s"

fun scan_groups_store :: "nat \<Rightarrow> nat \<Rightarrow> nat \<Rightarrow> nat list \<Rightarrow> cell list \<Rightarrow> cell list option" where
  "scan_groups_store apartRef tempGroups unit [] s = None"
| "scan_groups_store apartRef tempGroups unit (i # rest) s =
     (if \<not> groupHasApartPerson (constraints_at s apartRef)
            (strings_at s (refs_at s tempGroups ! i)) (strings_at s unit)
      then Some (push_store (refs_at s tempGroups ! i) (strings_at s unit) s)
      else scan_groups_store apartRef tempGroups unit rest s)"

fun place_units_store :: "nat \<Rightarrow> nat \<Rightarrow> nat list \<Rightarrow> cell list \<Rightarrow> bool \<times> cell list" where
  "place_units_store apartRef tempGroups [] s = (True, s)"
| "place_units_store apartRef tempGroups (unit # units) s =
     (case scan_groups_store apartRef tempGroups unit
             (groupOrder (map (strings_at s) (refs_at s tempGroups))) s of
        None \<Rightarrow> (False, s)
      | Some s' \<Rightarrow> place_units_store apartRef tempGroups units s')"

text \<open>\<open>tempGroups.map(g => g.sort())\<close>: every group is sorted in place.\<close>

definition sort_groups_store :: "nat list \<Rightarrow> cell list \<Rightarrow> cell list" where
  "sort_groups_store groups s = fold (\<lambda>g s. s[g := Strings (sort (strings_at s g))]) groups s"

text \<open>
  One pass after the size check: the new groups and the array \<open>tempGroups\<close> that holds
  them, the shuffle of \<open>shuffleUnits\<close> in place, and the placement.  The result is
  \<open>possible\<close>, the address of \<open>tempGroups\<close>, the draws consumed and the store.
\<close>

definition one_attempt_store :: "int \<Rightarrow> nat \<Rightarrow> nat \<Rightarrow> (nat \<Rightarrow> nat) \<Rightarrow> nat \<Rightarrow> cell list \<Rightarrow> bool \<times> nat \<times> nat \<times> cell list" where
  "one_attempt_store finalGroupCount apartRef shuffleUnits rnd pos s1 =
     (case alloc_groups (nat finalGroupCount) s1 of (groups, s2) \<Rightarrow>
      case alloc s2 (Refs groups) of (s3, tempGroups) \<Rightarrow>
      case shuffleArray_store shuffleUnits rnd pos s3 of (s4, pos') \<Rightarrow>
      case place_units_store apartRef tempGroups (refs_at s4 shuffleUnits) s4 of (possible, s5) \<Rightarrow>
        (possible, tempGroups, pos', s5))"

text \<open>
  \<open>const sortedGroups = tempGroups.map(g => g.sort())\<close>: the groups are sorted in place
  and collected in a new array; the result delivered is the content of that array.
\<close>

definition deliver_store :: "nat \<Rightarrow> cell list \<Rightarrow> string list list \<times> cell list" where
  "deliver_store tempGroups s5 =
     (let s6 = sort_groups_store (refs_at s5 tempGroups) s5
      in case alloc s6 (Refs (refs_at s6 tempGroups)) of
           (s7, sortedGroups) \<Rightarrow> (map (strings_at s7) (refs_at s7 sortedGroups), s7))"

function attempt_loop_store :: "nat \<Rightarrow> int \<Rightarrow> nat \<Rightarrow> nat \<Rightarrow> nat \<Rightarrow> (nat \<Rightarrow> nat) \<Rightarrow> nat \<Rightarrow> cell list \<Rightarrow> ((error + string list list) \<times> nat \<times> cell list) option" where
  "attempt_loop_store attempt finalGroupCount peopleRef apartRef togetherRef rnd pos s =
     (if attempt < 50 then
        (case make_units_store peopleRef togetherRef s of
           None \<Rightarrow> None
         | Some (Inl TypeError, s1) \<Rightarrow> Some (Inl UncaughtTypeError, pos, s1)
         | Some (Inr shuffleUnits, s1) \<Rightarrow>
             if list_ex (\<lambda>unit. exceeds_ceiling (length (strings_at s1 unit))
                    (length (strings_at s1 peopleRef)) finalGroupCount) (refs_at s1 shuffleUnits)
             then Some (Inl ErrorCliqueSize, pos, s1)
             else
               (case one_attempt_store finalGroupCount apartRef shuffleUnits rnd pos s1 of
                  (True, tempGroups, pos', s5) \<Rightarrow>
                    (case deliver_store tempGroups s5 of
                       (sortedGroups, s7) \<Rightarrow> Some (Inr sortedGroups, pos', s7))
                | (False, tempGroups, pos', s5) \<Rightarrow>
                    attempt_loop_store (attempt + 1) finalGroupCount peopleRef apartRef
                      togetherRef rnd pos' s5))
      else Some (Inl ErrorFailedConstraints, pos, s))"
  by pat_completeness auto
termination
  by (relation "measure (\<lambda>(attempt, _). 50 - attempt)") auto

declare attempt_loop_store.simps [simp del]

definition handleGenerateGroups_store :: "namingMethod \<Rightarrow> int \<Rightarrow> nat \<Rightarrow> nat \<Rightarrow> nat \<Rightarrow> (nat \<Rightarrow> nat) \<Rightarrow> nat \<Rightarrow> cell list \<Rightarrow> ((error + string list list) \<times> nat \<times> cell list) option" where
  "handleGenerateGroups_store naming finalGroupCount peopleRef apartRef togetherRef rnd pos s =
     (if naming = Custom \<and> finalGroupCount < 2 then Some (Inl ErrorMinTwoCustom, pos, s)
      else if int (length (strings_at s peopleRef)) < finalGroupCount
        then Some (Inl ErrorMorePeople, pos, s)
      else (case conflict_apart (constraints_at s apartRef) (constraints_at s togetherRef) of
              Some (a, b) \<Rightarrow> Some (Inl (ErrorConflict a b), pos, s)
            | None \<Rightarrow>
                attempt_loop_store 0 finalGroupCount peopleRef apartRef togetherRef rnd pos s))"

text \<open>
  The inputs are well-formed in the store: the three addresses and every cell reached
  from them exist.
\<close>

definition constraints_ok :: "cell list \<Rightarrow> nat \<Rightarrow> bool" where
  "constraints_ok s a =
     (a < length s \<and> list_all (\<lambda>c. c < length s \<and> (case s ! c of ConstraintObj p \<Rightarrow> p < length s | _ \<Rightarrow> True))
        (refs_at s a))"

definition inputs_ok :: "cell list \<Rightarrow> nat \<Rightarrow> nat \<Rightarrow> nat \<Rightarrow> bool" where
  "inputs_ok s peopleRef apartRef togetherRef =
     (peopleRef < length s \<and> constraints_ok s apartRef \<and> constraints_ok s togetherRef)"

text \<open>
  The cells below \<open>n\<close> are the same in a later store; and two stores of one size
  that differ only at the addresses \<open>W\<close>.
\<close>

definition keeps :: "nat \<Rightarrow> cell list \<Rightarrow> cell list \<Rightarrow> bool" where
  "keeps n s s' = (n \<le> length s \<and> length s \<le> length s' \<and> take n s' = take n s)"

definition differs_on :: "nat set \<Rightarrow> cell list \<Rightarrow> cell list \<Rightarrow> bool" where
  "differs_on W s s' = (length s' = length s \<and> (\<forall>a. a \<notin> W \<longrightarrow> s' ! a = s ! a))"

text \<open>
  The dictionary \<open>cliques\<close> of the store model, whose values are addresses not below
  \<open>n\<close>, holds the arrays of the dictionary \<open>cl\<close> of the pure model.
\<close>

definition cliques_rel :: "nat \<Rightarrow> cell list \<Rightarrow> (string \<times> nat) list \<Rightarrow> (string \<times> string list) list \<Rightarrow> bool" where
  "cliques_rel n s cliques cl =
     (cl = map (\<lambda>kv. (fst kv, strings_at s (snd kv))) cliques
      \<and> distinct (map snd cliques)
      \<and> (\<forall>a\<in>snd ` set cliques. n \<le> a \<and> a < length s))"

lemma root_of_det: "root_of p x r \<Longrightarrow> root_of p x r' \<Longrightarrow> r = r'"
proof (induction arbitrary: r' rule: root_of.induct)
  case (root x)
  from root.prems root.hyps show ?case by (cases rule: root_of.cases) simp_all
next
  case (step x r)
  from step.prems step.hyps(1) have "root_of p (getprop p x) r'"
    by (cases rule: root_of.cases) simp_all
  then show ?case by (rule step.IH)
qed

lemma root_of_is_root: "root_of p x r \<Longrightarrow> getprop p r = r"
  by (induction rule: root_of.induct) simp_all

lemma getprop_key: "key x = key y \<Longrightarrow> getprop p x = getprop p y"
  by (simp only: getprop_def)

lemma getprop_setprop:
  "key x \<noteq> ''__proto__'' \<Longrightarrow> getprop (setprop p x v) y = (if key y = key x then v else getprop p y)"
  by (simp add: getprop_def setprop_def)

lemma setprop_proto: "key x = ''__proto__'' \<Longrightarrow> setprop p x v = p"
  by (simp add: setprop_def)

lemma plain_simps [simp]:
  "plain Undefined" "plain (Str s)" "\<not> plain ObjectPrototype" "\<not> plain (Inherited name)"
  by (simp_all add: plain_def)

lemma from_prototype_key: "\<not> plain v \<Longrightarrow> from_prototype (key v) = Undefined"
  by (cases v) (simp_all add: from_prototype_def inherited_names_def)

lemma root_plain:
  assumes "own_plain p" and "getprop p r = r"
  shows "plain r"
proof (rule ccontr)
  assume "\<not> plain r"
  then have fp: "from_prototype (key r) = Undefined" by (rule from_prototype_key)
  have "plain (getprop p r)" unfolding getprop_def fp using assms(1)
    by (auto simp: own_plain_def split: option.splits)
  then show False using assms(2) \<open>\<not> plain r\<close> by simp
qed

lemma root_key:
  assumes "own_plain p" and "getprop p r = r"
  shows "key r \<noteq> ''__proto__''"
proof
  assume k: "key r = ''__proto__''"
  have "plain r" using assms by (rule root_plain)
  moreover have "getprop p r = ObjectPrototype"
    using k assms(1) by (simp add: getprop_def own_plain_def from_prototype_def)
  ultimately show False using assms(2) by simp
qed

lemma setprop_own_plain: "own_plain p \<Longrightarrow> plain v \<Longrightarrow> own_plain (setprop p x v)"
  by (simp add: own_plain_def setprop_def)

lemma twin_root:
  assumes "key y = key x" and "root_of p x r"
  shows "root_of p y r"
proof -
  have eq: "getprop p y = getprop p x" using assms(1) by (rule getprop_key)
  from assms(2) show ?thesis
  proof (cases rule: root_of.cases)
    case root
    have xx: "root_of p x x" using root by (simp add: root_of.root)
    show ?thesis
    proof (cases "y = x")
      case True
      then show ?thesis using assms(2) by simp
    next
      case False
      have "getprop p y \<noteq> y" using eq root False by simp
      moreover have "root_of p (getprop p y) x" using eq root xx by simp
      ultimately have "root_of p y x" by (rule root_of.step)
      then show ?thesis using root by simp
    qed
  next
    case step
    have v: "root_of p (getprop p y) r" using eq step by simp
    show ?thesis
    proof (cases "getprop p y = y")
      case True
      then show ?thesis using v by simp
    next
      case False
      then show ?thesis using v by (rule root_of.step)
    qed
  qed
qed

section \<open>The union-find is correct\<close>

text \<open>Path compression: the property of \<open>x\<close> is set to the root of \<open>x\<close>.\<close>

lemma compress_root:
  assumes q: "\<And>z. getprop q z = (if key z = key x then r else getprop p z)"
    and x: "root_of p x r" and y: "getprop p y = y"
  shows "getprop q y = y"
proof (cases "key y = key x")
  case True
  then have "root_of p y r" using x by (rule twin_root)
  moreover have "root_of p y y" using y by (rule root_of.root)
  ultimately have "r = y" by (rule root_of_det)
  then show ?thesis using True by (simp add: q)
next
  case False
  then show ?thesis using y by (simp add: q)
qed

lemma compress_fwd:
  assumes q: "\<And>z. getprop q z = (if key z = key x then r else getprop p z)"
    and x: "root_of p x r" and y: "root_of p y s"
  shows "root_of q y s"
  using y
proof (induction rule: root_of.induct)
  case (root y)
  show ?case using compress_root [OF q x root] by (rule root_of.root)
next
  case (step y s)
  show ?case
  proof (cases "key y = key x")
    case True
    then have yr: "root_of p y r" using x by (rule twin_root)
    have "root_of p y s" using step.hyps by (rule root_of.step)
    with yr have sr: "s = r" by (rule root_of_det [symmetric])
    have rr: "getprop p r = r" using x by (rule root_of_is_root)
    have "getprop q y \<noteq> y" using True rr step.hyps(1) by (auto simp: q)
    moreover have "root_of q (getprop q y) r"
      using compress_root [OF q x rr] True by (simp add: q root_of.root)
    ultimately have "root_of q y r" by (rule root_of.step)
    then show ?thesis using sr by simp
  next
    case False
    have "getprop q y \<noteq> y" using False step.hyps(1) by (simp add: q)
    moreover have "root_of q (getprop q y) s" using False step.IH by (simp add: q)
    ultimately show ?thesis by (rule root_of.step)
  qed
qed

lemma same_rootsI:
  assumes "rooted p" and "\<And>y s. root_of p y s \<Longrightarrow> root_of p' y s"
  shows "same_roots p p'"
  unfolding same_roots_def
proof (intro allI iffI)
  fix y s assume "root_of p' y s"
  moreover obtain s' where s': "root_of p y s'" using assms(1) by (auto simp: rooted_def)
  then have "root_of p' y s'" by (rule assms(2))
  ultimately have "s = s'" by (rule root_of_det)
  then show "root_of p y s" using s' by simp
qed (rule assms(2))

lemma same_roots_rooted: "same_roots p p' \<Longrightarrow> rooted p \<Longrightarrow> rooted p'"
  by (simp add: same_roots_def rooted_def)

lemma same_roots_trans: "same_roots p p' \<Longrightarrow> same_roots p' p'' \<Longrightarrow> same_roots p p''"
  by (simp add: same_roots_def)

lemma same_roots_refl: "same_roots p p"
  by (simp add: same_roots_def)

lemma same_rootsD: "same_roots p p' \<Longrightarrow> root_of p x r \<Longrightarrow> root_of p' x r"
  by (simp add: same_roots_def)

lemma compress_same:
  assumes "rooted p" and "root_of p x r"
  shows "same_roots p (setprop p x r)"
proof (cases "key x = ''__proto__''")
  case True
  then show ?thesis by (simp add: setprop_proto same_roots_refl)
next
  case False
  show ?thesis using assms(1)
  proof (rule same_rootsI)
    fix y s assume "root_of p y s"
    with getprop_setprop [OF False] assms(2) show "root_of (setprop p x r) y s"
      by (rule compress_fwd)
  qed
qed

lemma find_parent_root_of:
  assumes "root_of p x r" and "rooted p" and "own_plain p"
  shows "\<exists>p'. find_parent p x = Some (r, p') \<and> same_roots p p' \<and> own_plain p'"
  using assms
proof (induction rule: root_of.induct)
  case (root x)
  have "find_parent p x = Some (x, p)" using root.hyps by (subst find_parent.simps) simp
  then show ?case using same_roots_refl root.prems(2) by (intro exI conjI)
next
  case (step x r)
  from step.IH [OF step.prems] obtain p' where
    p': "find_parent p (getprop p x) = Some (r, p')" "same_roots p p'" "own_plain p'"
    by (elim exE conjE)
  have xr: "root_of p x r" using step.hyps by (rule root_of.step)
  with p'(2) have "root_of p' x r" by (rule same_rootsD)
  moreover have "rooted p'" using p'(2) step.prems(1) by (rule same_roots_rooted)
  ultimately have "same_roots p' (setprop p' x r)" by (rule compress_same [rotated])
  with p'(2) have "same_roots p (setprop p' x r)" by (rule same_roots_trans)
  moreover have "find_parent p x = Some (r, setprop p' x r)"
    using step.hyps(1) p'(1) by (subst find_parent.simps) simp
  moreover have "plain r" using step.prems(2) root_of_is_root [OF xr] by (rule root_plain)
  with p'(3) have "own_plain (setprop p' x r)" by (rule setprop_own_plain)
  ultimately show ?case by (intro exI conjI)
qed

text \<open>
  \<open>find\<close> returns on every well-formed parent table, with the root of its argument, which
  is a string or \<open>undefined\<close>; the path compression keeps every root.
\<close>

lemma find_parent_total:
  assumes "wf_parent p"
  shows "\<exists>r p'. find_parent p x = Some (r, p') \<and> root_of p x r \<and> same_roots p p' \<and> wf_parent p'
           \<and> plain r"
proof -
  have rp: "rooted p" and op: "own_plain p" using assms by (simp_all add: wf_parent_def)
  obtain r where r: "root_of p x r" using rp by (auto simp: rooted_def)
  from find_parent_root_of [OF this rp op] obtain p' where
    p': "find_parent p x = Some (r, p')" "same_roots p p'" "own_plain p'" by (elim exE conjE)
  have "rooted p'" using p'(2) rp by (rule same_roots_rooted)
  then have "wf_parent p'" using p'(3) by (simp add: wf_parent_def)
  moreover have "plain r" using op root_of_is_root [OF r] by (rule root_plain)
  ultimately show ?thesis using r p'(1,2) by (intro exI conjI)
qed

text \<open>Linking the root \<open>rJ\<close> below the root \<open>rI\<close>.\<close>

lemma link_fwd:
  assumes q: "\<And>z. getprop q z = (if key z = key rJ then rI else getprop p z)"
    and rI: "getprop p rI = rI" and rJ: "getprop p rJ = rJ" and ne: "rI \<noteq> rJ"
    and y: "root_of p y s"
  shows "root_of q y (if s = rJ then rI else s)"
proof -
  have rootJ: "root_of p rJ rJ" using rJ by (rule root_of.root)
  have rootI: "root_of p rI rI" using rI by (rule root_of.root)
  have keys: "key rI \<noteq> key rJ"
  proof
    assume "key rI = key rJ"
    then have "root_of p rI rJ" using rootJ by (rule twin_root)
    with rootI have "rI = rJ" by (rule root_of_det)
    then show False using ne by simp
  qed
  then have "getprop q rI = rI" using rI by (simp add: q)
  then have rI': "root_of q rI rI" by (rule root_of.root)
  have twin: "root_of q z rI" if "key z = key rJ" for z
  proof -
    have "z \<noteq> rI" using that keys by auto
    then have "getprop q z \<noteq> z" using that by (simp add: q)
    moreover have "root_of q (getprop q z) rI" using that rI' by (simp add: q)
    ultimately show ?thesis by (rule root_of.step)
  qed
  show ?thesis using y
  proof (induction rule: root_of.induct)
    case (root y)
    show ?case
    proof (cases "key y = key rJ")
      case True
      then have "root_of p y rJ" using rootJ by (rule twin_root)
      moreover have "root_of p y y" using root by (rule root_of.root)
      ultimately have "y = rJ" by (rule root_of_det [symmetric])
      then show ?thesis using twin [OF True] by simp
    next
      case False
      then have "y \<noteq> rJ" by auto
      moreover have "getprop q y = y" using False root by (simp add: q)
      then have "root_of q y y" by (rule root_of.root)
      ultimately show ?thesis by simp
    qed
  next
    case (step y s)
    show ?case
    proof (cases "key y = key rJ")
      case True
      then have "root_of p y rJ" using rootJ by (rule twin_root)
      moreover have "root_of p y s" using step.hyps by (rule root_of.step)
      ultimately have "s = rJ" by (rule root_of_det [symmetric])
      then show ?thesis using twin [OF True] by simp
    next
      case False
      have "getprop q y \<noteq> y" using False step.hyps(1) by (simp add: q)
      moreover have "root_of q (getprop q y) (if s = rJ then rI else s)"
        using False step.IH by (simp add: q)
      ultimately show ?thesis by (rule root_of.step)
    qed
  qed
qed

lemma same_root_sym: "same_root p x y \<Longrightarrow> same_root p y x"
  by (auto simp: same_root_def)

lemma same_root_trans:
  assumes "same_root p x y" and "same_root p y z"
  shows "same_root p x z"
proof -
  obtain r where r: "root_of p x r" "root_of p y r" using assms(1) by (auto simp: same_root_def)
  obtain s where s: "root_of p y s" "root_of p z s" using assms(2) by (auto simp: same_root_def)
  have "r = s" using r(2) s(1) by (rule root_of_det)
  then show ?thesis using r(1) s(2) by (auto simp: same_root_def)
qed

lemma same_root_refl: "wf_parent p \<Longrightarrow> same_root p x x"
  by (simp add: same_root_def rooted_def wf_parent_def)

lemma same_roots_same_root: "same_roots p p' \<Longrightarrow> same_root p x y \<Longrightarrow> same_root p' x y"
  by (auto simp: same_roots_def same_root_def)

lemma union_parent_unfold:
  "find_parent p i = Some (rI, p1) \<Longrightarrow> find_parent p1 j = Some (rJ, p2) \<Longrightarrow>
   union_parent p i j = Some (if rI \<noteq> rJ then setprop p2 rJ rI else p2)"
  by (simp add: union_parent_def)

lemma growsD: "grows p p' \<Longrightarrow> same_root p x y \<Longrightarrow> same_root p' x y"
  by (simp add: grows_def)

lemma grows_refl: "grows p p"
  by (simp add: grows_def)

lemma grows_trans: "grows p p' \<Longrightarrow> grows p' p'' \<Longrightarrow> grows p p''"
  by (simp add: grows_def)

lemma union_parent_correct:
  assumes "wf_parent p"
  shows "\<exists>p'. union_parent p i j = Some p' \<and> wf_parent p' \<and> same_root p' i j \<and> grows p p'"
proof -
  from find_parent_total [OF assms, of i] obtain rI p1 where
    f1: "find_parent p i = Some (rI, p1)" "root_of p i rI" "same_roots p p1" and w1: "wf_parent p1"
    and pI: "plain rI"
    by (elim exE conjE)
  from find_parent_total [OF w1, of j] obtain rJ p2 where
    f2: "find_parent p1 j = Some (rJ, p2)" "root_of p1 j rJ" "same_roots p1 p2" and w2: "wf_parent p2"
    by (elim exE conjE)
  have r2: "rooted p2" and o2: "own_plain p2" using w2 by (simp_all add: wf_parent_def)
  have s02: "same_roots p p2" using f1(3) f2(3) by (rule same_roots_trans)
  have i2: "root_of p2 i rI" using s02 f1(2) by (rule same_rootsD)
  have j2: "root_of p2 j rJ" using f2(3) f2(2) by (rule same_rootsD)
  note u = union_parent_unfold [OF f1(1) f2(1)]
  show ?thesis
  proof (cases "rI = rJ")
    case True
    then have "union_parent p i j = Some p2" using u by simp
    moreover have "same_root p2 i j" using i2 j2 True by (auto simp: same_root_def)
    moreover have "grows p p2" unfolding grows_def using same_roots_same_root [OF s02] by simp
    ultimately show ?thesis using w2 by (intro exI conjI)
  next
    case False
    define q where "q = setprop p2 rJ rI"
    have rI: "getprop p2 rI = rI" using i2 by (rule root_of_is_root)
    have rJ: "getprop p2 rJ = rJ" using j2 by (rule root_of_is_root)
    have "key rJ \<noteq> ''__proto__''" using o2 rJ by (rule root_key)
    then have q: "getprop q z = (if key z = key rJ then rI else getprop p2 z)" for z
      unfolding q_def by (rule getprop_setprop)
    have uq: "union_parent p i j = Some q" using u False by (simp add: q_def)
    have oq: "own_plain q" unfolding q_def using o2 pI by (rule setprop_own_plain)
    note lk = link_fwd [of q rJ rI p2, OF q rI rJ False]
    have "rooted q" unfolding rooted_def
    proof
      fix x obtain s where "root_of p2 x s" using r2 by (auto simp: rooted_def)
      then have "root_of q x (if s = rJ then rI else s)" by (rule lk)
      then show "\<exists>r. root_of q x r" by (rule exI)
    qed
    then have "wf_parent q" using oq by (simp add: wf_parent_def)
    moreover have "same_root q i j"
    proof -
      have "root_of q i rI" using lk [OF i2] False by simp
      moreover have "root_of q j rI" using lk [OF j2] by simp
      ultimately show ?thesis unfolding same_root_def by (intro exI conjI)
    qed
    moreover have "grows p q" unfolding grows_def
    proof (intro allI impI)
      fix x y assume "same_root p x y"
      with s02 have "same_root p2 x y" by (rule same_roots_same_root)
      then obtain s where xs: "root_of p2 x s" and ys: "root_of p2 y s"
        by (auto simp: same_root_def)
      have "root_of q x (if s = rJ then rI else s)" using xs by (rule lk)
      moreover have "root_of q y (if s = rJ then rI else s)" using ys by (rule lk)
      ultimately show "same_root q x y" unfolding same_root_def by (intro exI conjI)
    qed
    ultimately show ?thesis using uq by (intro exI conjI)
  qed
qed

lemma all_same_grows: "grows p p' \<Longrightarrow> all_same p xs \<Longrightarrow> all_same p' xs"
  by (simp add: all_same_def grows_def)

lemma union_consecutive_correct:
  "wf_parent p \<Longrightarrow>
   \<exists>p'. union_consecutive p xs = Some p' \<and> wf_parent p' \<and> grows p p' \<and> all_same p' xs"
proof (induction p xs rule: union_consecutive.induct)
  case (1 parent a b rest)
  from union_parent_correct [OF "1.prems", of "Str a" "Str b"] obtain p1 where
    p1: "union_parent parent (Str a) (Str b) = Some p1" "wf_parent p1"
      "same_root p1 (Str a) (Str b)" "grows parent p1"
    by (elim exE conjE)
  from "1.IH" [OF p1(1) p1(2)] obtain p' where
    p': "union_consecutive p1 (b # rest) = Some p'" "wf_parent p'" "grows p1 p'"
      "all_same p' (b # rest)"
    by (elim exE conjE)
  have ab: "same_root p' (Str a) (Str b)" using p'(3) p1(3) by (rule growsD)
  have tob: "same_root p' (Str x) (Str b)" if "x \<in> set (a # b # rest)" for x
  proof (cases "x = a")
    case True
    then show ?thesis using ab by simp
  next
    case False
    then have "x \<in> set (b # rest)" using that by simp
    moreover have "b \<in> set (b # rest)" by simp
    ultimately show ?thesis using p'(4) unfolding all_same_def by blast
  qed
  have "all_same p' (a # b # rest)" unfolding all_same_def
  proof (intro ballI)
    fix x y assume "x \<in> set (a # b # rest)" "y \<in> set (a # b # rest)"
    then have "same_root p' (Str x) (Str b)" "same_root p' (Str b) (Str y)"
      using tob same_root_sym by blast+
    then show "same_root p' (Str x) (Str y)" by (rule same_root_trans)
  qed
  moreover have "union_consecutive parent (a # b # rest) = Some p'"
    using p1(1) p'(1) by simp
  moreover have "grows parent p'" using p1(4) p'(3) by (rule grows_trans)
  ultimately show ?case using p'(2) by (intro exI conjI)
next
  case (2 parent a)
  then show ?case by (simp add: grows_refl all_same_def same_root_refl)
next
  case (3 parent)
  then show ?case by (simp add: grows_refl all_same_def)
qed

lemma union_all_correct:
  "wf_parent p \<Longrightarrow>
   \<exists>p'. union_all p cs = Some p' \<and> wf_parent p' \<and> grows p p'
     \<and> (\<forall>c\<in>set cs. all_same p' (people c))"
proof (induction cs arbitrary: p)
  case Nil
  then show ?case by (simp add: grows_refl)
next
  case (Cons c cs)
  from union_consecutive_correct [OF Cons.prems, of "people c"] obtain p1 where
    p1: "union_consecutive p (people c) = Some p1" "wf_parent p1" "grows p p1"
      "all_same p1 (people c)"
    by (elim exE conjE)
  from Cons.IH [OF p1(2)] obtain p' where
    p': "union_all p1 cs = Some p'" "wf_parent p'" "grows p1 p'"
      "\<forall>c\<in>set cs. all_same p' (people c)"
    by (elim exE conjE)
  have "union_all p (c # cs) = Some p'" using p1(1) p'(1) by simp
  moreover have "grows p p'" using p1(3) p'(3) by (rule grows_trans)
  moreover have "\<forall>c'\<in>set (c # cs). all_same p' (people c')"
    using all_same_grows [OF p'(3) p1(4)] p'(4) by simp
  ultimately show ?case using p'(2) by (intro exI conjI)
qed

lemma fold_parent_apply:
  "fold (\<lambda>p parent. setprop parent (Str p) (Str p)) ps m k =
     (if k \<in> set ps \<and> k \<noteq> ''__proto__'' then Some (Str k) else m k)"
  by (induction ps arbitrary: m) (auto simp: setprop_def)

lemma init_parent_apply:
  "init_parent persons k = (if k \<in> set persons \<and> k \<noteq> ''__proto__'' then Some (Str k) else None)"
  by (simp add: init_parent_def fold_parent_apply)

lemma getprop_init_parent:
  "getprop (init_parent persons) x =
     (if key x \<in> set persons \<and> key x \<noteq> ''__proto__'' then Str (key x) else from_prototype (key x))"
  by (simp add: getprop_def init_parent_apply)

lemma root_of_pred: "\<exists>r. root_of p (getprop p x) r \<Longrightarrow> \<exists>r. root_of p x r"
proof (cases "getprop p x = x")
  case True
  then have "root_of p x x" by (rule root_of.root)
  then show ?thesis by (rule exI)
next
  case False
  assume "\<exists>r. root_of p (getprop p x) r"
  then obtain r where "root_of p (getprop p x) r" by (rule exE)
  with False have "root_of p x r" by (rule root_of.step)
  then show ?thesis by (rule exI)
qed

lemma plain_from_prototype: "plain (from_prototype k) \<Longrightarrow> from_prototype k = Undefined"
  by (simp add: from_prototype_def split: if_splits)

text \<open>
  After \<open>people.forEach(p => parent[p] = p)\<close> every person other than \<open>__proto__\<close> is its
  own root.  Every other value reaches a root in at most three steps: an inherited name
  leads to \<open>Object.prototype\<close> or a built-in function, that to \<open>undefined\<close>, and
  \<open>undefined\<close> to itself or to a person named \<open>undefined\<close>.
\<close>

lemma rooted_init_parent: "rooted (init_parent persons)"
proof -
  let ?p = "init_parent persons"
  let ?own = "\<lambda>k. k \<in> set persons \<and> k \<noteq> ''__proto__''"
  have own: "\<exists>r. root_of ?p x r" if "?own (key x)" for x
  proof (rule root_of_pred)
    have "getprop ?p x = Str (key x)" using that by (simp add: getprop_init_parent)
    moreover have "getprop ?p (Str (key x)) = Str (key x)"
      using that by (simp add: getprop_init_parent)
    then have "root_of ?p (Str (key x)) (Str (key x))" by (rule root_of.root)
    ultimately show "\<exists>r. root_of ?p (getprop ?p x) r" by (simp only: exI)
  qed
  have und: "\<exists>r. root_of ?p Undefined r"
  proof (cases "?own (key Undefined)")
    case True
    then show ?thesis by (rule own)
  next
    case False
    then have "getprop ?p Undefined = Undefined"
      by (simp add: getprop_init_parent from_prototype_def inherited_names_def)
    then have "root_of ?p Undefined Undefined" by (rule root_of.root)
    then show ?thesis by (rule exI)
  qed
  have undef: "\<exists>r. root_of ?p x r" if "from_prototype (key x) = Undefined" for x
  proof (cases "?own (key x)")
    case True
    then show ?thesis by (rule own)
  next
    case False
    then have "getprop ?p x = Undefined" using that by (simp add: getprop_init_parent)
    then show ?thesis using und by (simp add: root_of_pred)
  qed
  show ?thesis unfolding rooted_def
  proof
    fix x show "\<exists>r. root_of ?p x r"
    proof (cases "?own (key x)")
      case True
      then show ?thesis by (rule own)
    next
      case False
      then have g: "getprop ?p x = from_prototype (key x)"
        by (auto simp: getprop_init_parent)
      show ?thesis
      proof (cases "plain (from_prototype (key x))")
        case True
        then have "from_prototype (key x) = Undefined" by (rule plain_from_prototype)
        then show ?thesis by (rule undef)
      next
        case False
        then have "from_prototype (key (from_prototype (key x))) = Undefined"
          by (rule from_prototype_key)
        then have "\<exists>r. root_of ?p (from_prototype (key x)) r" by (rule undef)
        then show ?thesis using g by (simp add: root_of_pred)
      qed
    qed
  qed
qed

lemma wf_init_parent: "wf_parent (init_parent persons)"
  unfolding wf_parent_def own_plain_def
  by (simp add: rooted_init_parent init_parent_apply)

lemma together_linked_same_root:
  assumes "wf_parent p" and "\<forall>c\<in>set cs. all_same p (people c)" and "together_linked cs a b"
  shows "same_root p (Str a) (Str b)"
  using assms(3)
proof (induction rule: together_linked.induct)
  case (self a)
  show ?case using assms(1) by (rule same_root_refl)
next
  case (member c a b)
  then show ?case using assms(2) by (simp add: all_same_def)
next
  case (chain a b c)
  then show ?case by (auto intro: same_root_trans)
qed

subsection \<open>Cliques and units\<close>

lemma push_clique_map_fst:
  "map fst (push_clique k p cl) = (if k \<in> fst ` set cl then map fst cl else map fst cl @ [k])"
  by (induction k p cl rule: push_clique.induct) auto

lemma push_clique_distinct:
  "distinct (map fst cl) \<Longrightarrow> distinct (map fst (push_clique k p cl))"
  by (simp add: push_clique_map_fst)

lemma push_clique_mset:
  "mset (concat (map snd (push_clique k p cl))) = mset (concat (map snd cl)) + {#p#}"
  by (induction k p cl rule: push_clique.induct) auto

lemma push_clique_keeps:
  "(k', ms) \<in> set cl \<Longrightarrow> q \<in> set ms \<Longrightarrow>
   \<exists>ms'. (k', ms') \<in> set (push_clique k p cl) \<and> q \<in> set ms'"
proof (induction k p cl rule: push_clique.induct)
  case (1 k p)
  then show ?case by simp
next
  case (2 k p k0 ms0 rest)
  show ?case
  proof (cases "k0 = k")
    case True
    show ?thesis
    proof (cases "(k', ms) = (k0, ms0)")
      case True
      then have "(k', ms0 @ [p]) \<in> set (push_clique k p ((k0, ms0) # rest))"
        using \<open>k0 = k\<close> by simp
      moreover have "q \<in> set (ms0 @ [p])" using True "2.prems"(2) by simp
      ultimately show ?thesis by blast
    next
      case False
      then have "(k', ms) \<in> set (push_clique k p ((k0, ms0) # rest))"
        using \<open>k0 = k\<close> "2.prems"(1) by auto
      then show ?thesis using "2.prems"(2) by blast
    qed
  next
    case False
    show ?thesis
    proof (cases "(k', ms) = (k0, ms0)")
      case True
      then have "(k', ms) \<in> set (push_clique k p ((k0, ms0) # rest))"
        using \<open>k0 \<noteq> k\<close> by simp
      then show ?thesis using "2.prems"(2) by blast
    next
      case neq: False
      then have "(k', ms) \<in> set rest" using "2.prems"(1) by auto
      from "2.IH" [OF False this "2.prems"(2)] obtain ms' where
        "(k', ms') \<in> set (push_clique k p rest)" "q \<in> set ms'" by blast
      then have "(k', ms') \<in> set (push_clique k p ((k0, ms0) # rest))"
        using False by simp
      then show ?thesis using \<open>q \<in> set ms'\<close> by blast
    qed
  qed
qed

lemma push_clique_adds: "\<exists>ms. (k, ms) \<in> set (push_clique k p cl) \<and> p \<in> set ms"
proof (induction k p cl rule: push_clique.induct)
  case (1 k p)
  then show ?case by simp
next
  case (2 k p k0 ms0 rest)
  show ?case
  proof (cases "k0 = k")
    case True
    then have "(k, ms0 @ [p]) \<in> set (push_clique k p ((k0, ms0) # rest))" by simp
    moreover have "p \<in> set (ms0 @ [p])" by simp
    ultimately show ?thesis by blast
  next
    case False
    from "2.IH" [OF False] obtain ms where
      "(k, ms) \<in> set (push_clique k p rest)" "p \<in> set ms" by blast
    then have "(k, ms) \<in> set (push_clique k p ((k0, ms0) # rest))" using False by simp
    then show ?thesis using \<open>p \<in> set ms\<close> by blast
  qed
qed

lemma filed_same_roots: "same_roots parent parent' \<Longrightarrow> filed parent cl p \<Longrightarrow> filed parent' cl p"
  by (auto simp: filed_def same_roots_def)

lemma filed_push: "filed parent cl q \<Longrightarrow> filed parent (push_clique k p cl) q"
  unfolding filed_def using push_clique_keeps by blast

lemma push_checked_cases:
  obtains "push_checked k p cl = Inl TypeError" "map_of cl k = None" "from_prototype k \<noteq> Undefined"
  | "push_checked k p cl = Inr (push_clique k p cl)"
  by (cases "map_of cl k = None \<and> from_prototype k \<noteq> Undefined") (simp_all add: push_checked_def)

lemma build_cliques_correct:
  "wf_parent parent \<Longrightarrow> distinct (map fst cl) \<Longrightarrow>
   \<exists>built. build_cliques parent cl ps = Some built
     \<and> (\<forall>cl'. built = Inr cl' \<longrightarrow> distinct (map fst cl')
     \<and> mset (concat (map snd cl')) = mset (concat (map snd cl)) + mset ps
     \<and> (\<forall>q. filed parent cl q \<longrightarrow> filed parent cl' q)
     \<and> (\<forall>q\<in>set ps. filed parent cl' q))"
proof (induction ps arbitrary: parent cl)
  case Nil
  then show ?case by simp
next
  case (Cons p ps)
  from find_parent_total [OF Cons.prems(1), of "Str p"] obtain r parent1 where
    f: "find_parent parent (Str p) = Some (r, parent1)" "root_of parent (Str p) r"
      "same_roots parent parent1" and r1: "wf_parent parent1"
    by (elim exE conjE)
  let ?cl = "push_clique (key r) p cl"
  show ?case
  proof (cases rule: push_checked_cases [of "key r" p cl])
    case 1
    then have "build_cliques parent cl (p # ps) = Some (Inl TypeError)" using f(1) by simp
    then show ?thesis by simp
  next
    case 2
    have d1: "distinct (map fst ?cl)" using Cons.prems(2) by (rule push_clique_distinct)
    from Cons.IH [OF r1 d1] obtain built where
      b: "build_cliques parent1 ?cl ps = Some built" and
      c: "\<forall>cl'. built = Inr cl' \<longrightarrow> distinct (map fst cl')
         \<and> mset (concat (map snd cl')) = mset (concat (map snd ?cl)) + mset ps
         \<and> (\<forall>q. filed parent1 ?cl q \<longrightarrow> filed parent1 cl' q)
         \<and> (\<forall>q\<in>set ps. filed parent1 cl' q)"
      by (elim exE conjE)
    have bk: "same_roots parent1 parent" using f(3) by (simp add: same_roots_def)
    have eq: "build_cliques parent cl (p # ps) = Some built" using f(1) b 2 by simp
    have fin: "distinct (map fst cl')
       \<and> mset (concat (map snd cl')) = mset (concat (map snd cl)) + mset (p # ps)
       \<and> (\<forall>q. filed parent cl q \<longrightarrow> filed parent cl' q)
       \<and> (\<forall>q\<in>set (p # ps). filed parent cl' q)" if "built = Inr cl'" for cl'
    proof -
      from c that have cl': "distinct (map fst cl')"
        "mset (concat (map snd cl')) = mset (concat (map snd ?cl)) + mset ps"
        "\<forall>q. filed parent1 ?cl q \<longrightarrow> filed parent1 cl' q"
        "\<forall>q\<in>set ps. filed parent1 cl' q"
        by simp_all
      have "mset (concat (map snd cl')) = mset (concat (map snd cl)) + mset (p # ps)"
        using cl'(2) by (simp add: push_clique_mset)
      moreover have keep: "filed parent cl' q" if "filed parent1 ?cl q" for q
        using that cl'(3) bk by (auto intro: filed_same_roots)
      have "\<forall>q. filed parent cl q \<longrightarrow> filed parent cl' q"
        using keep filed_push filed_same_roots [OF f(3)] by blast
      moreover have "filed parent cl' p"
      proof (rule keep)
        have "root_of parent1 (Str p) r" using f(3) f(2) by (rule same_rootsD)
        then show "filed parent1 ?cl p" unfolding filed_def using push_clique_adds by blast
      qed
      then have "\<forall>q\<in>set (p # ps). filed parent cl' q"
        using cl'(4) bk by (auto intro: filed_same_roots)
      ultimately show ?thesis using cl'(1) by (intro conjI)
    qed
    have "\<forall>cl'. built = Inr cl' \<longrightarrow> distinct (map fst cl')
       \<and> mset (concat (map snd cl')) = mset (concat (map snd cl)) + mset (p # ps)
       \<and> (\<forall>q. filed parent cl q \<longrightarrow> filed parent cl' q)
       \<and> (\<forall>q\<in>set (p # ps). filed parent cl' q)"
      by (intro allI impI, erule fin)
    with eq show ?thesis by (intro exI conjI)
  qed
qed

lemma filed_same_unit:
  assumes "distinct (map fst cl)" and "filed parent cl a" and "filed parent cl b"
    and "same_root parent (Str a) (Str b)"
  shows "\<exists>u\<in>snd ` set cl. a \<in> set u \<and> b \<in> set u"
proof -
  obtain r ms where a: "root_of parent (Str a) r" "(key r, ms) \<in> set cl" "a \<in> set ms"
    using assms(2) by (auto simp: filed_def)
  obtain r' ms' where b: "root_of parent (Str b) r'" "(key r', ms') \<in> set cl" "b \<in> set ms'"
    using assms(3) by (auto simp: filed_def)
  obtain s where s: "root_of parent (Str a) s" "root_of parent (Str b) s"
    using assms(4) by (auto simp: same_root_def)
  have "r = s" "r' = s" using a(1) b(1) s by (auto dest: root_of_det)
  then have "ms = ms'" using a(2) b(2) assms(1) by (auto dest: eq_key_imp_eq_value)
  then show ?thesis using a b by force
qed

lemma Object_values_mset: "mset (Object_values props) = mset (map snd props)"
proof -
  let ?P = "\<lambda>kv. is_array_index (fst kv)"
  have "mset (Object_values props)
      = image_mset snd (filter_mset ?P (mset props)) + image_mset snd (filter_mset (\<lambda>kv. \<not> ?P kv) (mset props))"
    by (simp add: Object_values_def)
  also have "\<dots> = image_mset snd (mset props)"
    by (metis image_mset_union multiset_partition)
  finally show ?thesis by simp
qed

lemma mset_concat_cong:
  assumes "mset xss = mset yss"
  shows "mset (concat xss) = mset (concat yss)"
proof -
  have "mset (concat zss) = \<Sum>\<^sub># (image_mset mset (mset zss))" for zss :: "'a list list"
    by (simp add: mset_concat sum_mset_sum_list [symmetric])
  then show ?thesis using assms by simp
qed

lemma Object_values_set: "set (Object_values props) = snd ` set props"
  using Object_values_mset [of props] by (metis mset_eq_setD set_map)

text \<open>
  Building the units of one attempt always ends: with a \<open>TypeError\<close>, or with units that
  hold every person once and keep linked people together.
\<close>

theorem make_units_correct:
  "\<exists>made. make_units persons togetherConstraints = Some made
     \<and> (\<forall>units. made = Inr units \<longrightarrow> mset (concat units) = mset persons
     \<and> (\<forall>a b. together_linked togetherConstraints a b \<longrightarrow> a \<in> set persons \<longrightarrow> b \<in> set persons
          \<longrightarrow> (\<exists>u\<in>set units. a \<in> set u \<and> b \<in> set u)))"
proof -
  from union_all_correct [OF wf_init_parent, of persons togetherConstraints] obtain parent where
    u: "union_all (init_parent persons) togetherConstraints = Some parent" "wf_parent parent"
      "\<forall>c\<in>set togetherConstraints. all_same parent (people c)"
    by (elim exE conjE)
  have "distinct (map fst ([] :: (string \<times> string list) list))" by simp
  from build_cliques_correct [OF u(2) this, of persons] obtain built where
    b: "build_cliques parent [] persons = Some built" and
    c: "\<forall>cl. built = Inr cl \<longrightarrow> distinct (map fst cl)
      \<and> mset (concat (map snd cl)) = mset (concat (map snd ([] :: (string \<times> string list) list))) + mset persons
      \<and> (\<forall>q. filed parent [] q \<longrightarrow> filed parent cl q)
      \<and> (\<forall>q\<in>set persons. filed parent cl q)"
    by (elim exE conjE)
  show ?thesis
  proof (cases built)
    case (Inl e)
    then have "make_units persons togetherConstraints = Some (Inl e)"
      using u(1) b by (simp add: make_units_def)
    then show ?thesis by simp
  next
    case (Inr cl)
    with c have cl: "distinct (map fst cl)" "mset (concat (map snd cl)) = mset persons"
      "\<forall>q\<in>set persons. filed parent cl q"
      by simp_all
    have m: "make_units persons togetherConstraints = Some (Inr (Object_values cl))"
      using u(1) b Inr by (simp add: make_units_def)
    have "mset (concat (Object_values cl)) = mset persons"
      using mset_concat_cong [OF Object_values_mset, of cl] cl(2) by simp
    moreover have "\<exists>u\<in>set (Object_values cl). a \<in> set u \<and> b \<in> set u"
      if "together_linked togetherConstraints a b" "a \<in> set persons" "b \<in> set persons" for a b
    proof -
      have "same_root parent (Str a) (Str b)"
        using u(2) u(3) that(1) by (rule together_linked_same_root)
      moreover have "filed parent cl a" "filed parent cl b" using cl(3) that(2,3) by auto
      ultimately have "\<exists>u\<in>snd ` set cl. a \<in> set u \<and> b \<in> set u"
        using filed_same_unit [OF cl(1)] by blast
      then show ?thesis by (simp only: Object_values_set)
    qed
    ultimately show ?thesis using m by simp
  qed
qed

section \<open>Units are no larger than the components of the together-graph\<close>


















section \<open>Shuffling, packing and the attempt loop\<close>

lemma shuffle_loop_mset: "n \<le> length xs \<Longrightarrow> mset (fst (shuffle_loop n xs rnd pos)) = mset xs"
proof (induction n arbitrary: xs pos)
  case 0
  then show ?case by simp
next
  case (Suc n)
  let ?r = "rnd pos mod Suc n"
  let ?ys = "xs[n := xs ! ?r, ?r := xs ! n]"
  have r: "?r < length xs" using Suc.prems by (meson less_le_trans mod_less_divisor zero_less_Suc)
  have n: "n < length xs" using Suc.prems by simp
  have "mset ?ys = mset xs" using r n by (rule mset_swap)
  moreover have "mset (fst (shuffle_loop n ?ys rnd (Suc pos))) = mset ?ys"
    using n by (intro Suc.IH) simp
  ultimately show ?case by (simp add: Let_def)
qed

lemma shuffle_loop_pos: "snd (shuffle_loop n xs rnd pos) = pos + n"
  by (induction n arbitrary: xs pos) (simp_all add: Let_def)

lemma shuffleArray_mset: "mset (fst (shuffleArray xs rnd pos)) = mset xs"
  by (simp add: shuffleArray_def shuffle_loop_mset)

lemma shuffleArray_pos: "snd (shuffleArray xs rnd pos) = pos + length xs"
  by (simp add: shuffleArray_def shuffle_loop_pos)

lemma groupOrder_set: "set (groupOrder tg) = {0..<length tg}"
  by (simp add: groupOrder_def)

lemma scan_groups_find:
  "scan_groups apart tg unit order =
     map_option (\<lambda>i. tg[i := tg ! i @ unit])
       (find (\<lambda>i. \<not> groupHasApartPerson apart (tg ! i) unit) order)"
  by (induction order) simp_all

lemma scan_groups_Some:
  assumes "scan_groups apart tg unit order = Some tg'"
  shows "\<exists>i\<in>set order. tg' = tg[i := tg ! i @ unit] \<and> \<not> groupHasApartPerson apart (tg ! i) unit"
  using assms by (induction order) (auto split: if_splits)

lemma mset_concat_update:
  assumes "i < length tg"
  shows "mset (concat (tg[i := tg ! i @ u])) = mset (concat tg) + mset u"
proof -
  have "concat (tg[i := tg ! i @ u]) = concat (take i tg) @ (tg ! i @ u) @ concat (drop (Suc i) tg)"
    using assms by (simp add: upd_conv_take_nth_drop)
  moreover have "concat tg = concat (take i tg) @ tg ! i @ concat (drop (Suc i) tg)"
    using assms by (metis concat.simps(2) concat_append id_take_nth_drop)
  ultimately show ?thesis by simp
qed

lemma place_units_correct:
  "place_units apart tg units = Some tg' \<Longrightarrow>
   length tg' = length tg
   \<and> mset (concat tg') = mset (concat tg) + mset (concat units)
   \<and> (\<forall>i<length tg. set (tg ! i) \<subseteq> set (tg' ! i))
   \<and> (\<forall>u\<in>set units. \<exists>grp\<in>set tg'. set u \<subseteq> set grp)"
proof (induction units arbitrary: tg)
  case Nil
  then show ?case by simp
next
  case (Cons unit units)
  from Cons.prems obtain tg1 where
    s: "scan_groups apart tg unit (groupOrder tg) = Some tg1" and
    p: "place_units apart tg1 units = Some tg'"
    by (auto split: option.splits)
  from scan_groups_Some [OF s] obtain i where
    i: "i \<in> set (groupOrder tg)" "tg1 = tg[i := tg ! i @ unit]" by blast
  have il: "i < length tg" using i(1) by (simp add: groupOrder_set)
  have len1: "length tg1 = length tg" using i(2) by simp
  note ih = Cons.IH [OF p]
  have len: "length tg' = length tg" using ih len1 by simp
  have ms: "mset (concat tg') = mset (concat tg) + mset (concat (unit # units))"
    using ih i(2) il by (simp add: mset_concat_update)
  have mono1: "set (tg ! j) \<subseteq> set (tg1 ! j)" if "j < length tg" for j
    using that i(2) by (cases "j = i") auto
  have mono: "\<forall>j<length tg. set (tg ! j) \<subseteq> set (tg' ! j)"
  proof (intro allI impI)
    fix j assume j: "j < length tg"
    then have "set (tg1 ! j) \<subseteq> set (tg' ! j)" using ih len1 by simp
    then show "set (tg ! j) \<subseteq> set (tg' ! j)" using mono1 [OF j] by blast
  qed
  have "set unit \<subseteq> set (tg1 ! i)" using i(2) il by simp
  moreover have "set (tg1 ! i) \<subseteq> set (tg' ! i)" using ih len1 il by simp
  moreover have "tg' ! i \<in> set tg'" using il len by simp
  ultimately have "\<exists>grp\<in>set tg'. set unit \<subseteq> set grp" by blast
  then have "\<forall>u\<in>set (unit # units). \<exists>grp\<in>set tg'. set u \<subseteq> set grp" using ih by simp
  then show ?case using len ms mono by blast
qed

lemma one_attempt_pos: "snd (one_attempt g apart units rnd pos) = pos + length units"
  by (simp add: one_attempt_def Let_def split: prod.splits)
    (metis shuffleArray_pos snd_conv)

lemma one_attempt_correct:
  assumes "fst (one_attempt g apart units rnd pos) = Some tg"
  shows "length tg = nat g \<and> mset (concat tg) = mset (concat units)
    \<and> (\<forall>u\<in>set units. \<exists>grp\<in>set tg. set u \<subseteq> set grp)"
proof -
  obtain shuffled pos' where sh: "shuffleArray units rnd pos = (shuffled, pos')"
    by (cases "shuffleArray units rnd pos")
  then have pl: "place_units apart (replicate (nat g) []) shuffled = Some tg"
    using assms by (simp add: one_attempt_def Let_def)
  have m: "mset shuffled = mset units" using shuffleArray_mset [of units rnd pos] sh by simp
  then have mc: "mset (concat shuffled) = mset (concat units)" by (rule mset_concat_cong)
  have st: "set shuffled = set units" using m by (rule mset_eq_setD)
  from place_units_correct [OF pl] show ?thesis using mc st by simp
qed

lemma attempt_loop_unfold:
  assumes "make_units persons together = Some (Inr units)"
  shows "attempt_loop attempt g persons apart together rnd pos =
    (if attempt < 50 then
       if oversized persons g units then Some (Inl ErrorCliqueSize, pos)
       else (case fst (one_attempt g apart units rnd pos) of
               Some tg \<Rightarrow> Some (Inr (map sort tg), pos + length units)
             | None \<Rightarrow> attempt_loop (attempt + 1) g persons apart together rnd (pos + length units))
     else Some (Inl ErrorFailedConstraints, pos))"
proof -
  obtain r pos' where oa: "one_attempt g apart units rnd pos = (r, pos')"
    by (cases "one_attempt g apart units rnd pos")
  then have "pos' = pos + length units" using one_attempt_pos [of g apart units rnd pos] by simp
  then show ?thesis using oa assms
    by (subst attempt_loop.simps) (simp add: oversized_def split: option.splits)
qed

lemma attempt_loop_throws:
  assumes "make_units persons together = Some (Inl e)" and "attempt < 50"
  shows "attempt_loop attempt g persons apart together rnd pos = Some (Inl UncaughtTypeError, pos)"
  using assms by (subst attempt_loop.simps) (simp split: exception.splits)

lemma attempt_loop_oversized:
  assumes "make_units persons together = Some (Inr units)" and "oversized persons g units"
    and "attempt < 50"
  shows "attempt_loop attempt g persons apart together rnd pos = Some (Inl ErrorCliqueSize, pos)"
  using assms(2,3) by (subst attempt_loop_unfold [OF assms(1)]) simp

lemma attempt_loop_exhaust:
  assumes mu: "make_units persons together = Some (Inr units)" and ok: "\<not> oversized persons g units"
  shows "attempt + n = 50 \<Longrightarrow> (\<forall>k<n. attempt_at g apart units rnd pos k = None) \<Longrightarrow>
    attempt_loop attempt g persons apart together rnd pos
      = Some (Inl ErrorFailedConstraints, pos + n * length units)"
proof (induction n arbitrary: attempt pos)
  case 0
  then show ?case by (subst attempt_loop_unfold [OF mu]) simp
next
  case (Suc n)
  have first: "fst (one_attempt g apart units rnd pos) = None"
    using Suc.prems(2) [rule_format, of 0] by (simp add: attempt_at_def)
  have rest: "\<forall>k<n. attempt_at g apart units rnd (pos + length units) k = None"
  proof (intro allI impI)
    fix k assume "k < n"
    then have "attempt_at g apart units rnd pos (Suc k) = None" using Suc.prems(2) by simp
    then show "attempt_at g apart units rnd (pos + length units) k = None"
      by (simp add: attempt_at_def add.assoc)
  qed
  have "attempt_loop (attempt + 1) g persons apart together rnd (pos + length units)
      = Some (Inl ErrorFailedConstraints, pos + length units + n * length units)"
    using Suc.prems(1) rest by (intro Suc.IH) simp_all
  then show ?case using Suc.prems(1) ok first
    by (subst attempt_loop_unfold [OF mu]) (simp add: add.assoc)
qed

lemma attempt_loop_success:
  assumes mu: "make_units persons together = Some (Inr units)" and ok: "\<not> oversized persons g units"
  shows "attempt + n = 50 \<Longrightarrow> k < n \<Longrightarrow> (\<forall>j<k. attempt_at g apart units rnd pos j = None) \<Longrightarrow>
    attempt_at g apart units rnd pos k = Some tg \<Longrightarrow>
    attempt_loop attempt g persons apart together rnd pos
      = Some (Inr (map sort tg), pos + (k + 1) * length units)"
proof (induction k arbitrary: attempt n pos)
  case 0
  then have "fst (one_attempt g apart units rnd pos) = Some tg" by (simp add: attempt_at_def)
  then show ?case using "0.prems"(1,2) ok
    by (subst attempt_loop_unfold [OF mu]) simp
next
  case (Suc k)
  obtain m where m: "n = Suc m" using Suc.prems(2) by (cases n) simp_all
  have first: "fst (one_attempt g apart units rnd pos) = None"
    using Suc.prems(3) [rule_format, of 0] by (simp add: attempt_at_def)
  have rest: "\<forall>j<k. attempt_at g apart units rnd (pos + length units) j = None"
  proof (intro allI impI)
    fix j assume "j < k"
    then have "attempt_at g apart units rnd pos (Suc j) = None" using Suc.prems(3) by simp
    then show "attempt_at g apart units rnd (pos + length units) j = None"
      by (simp add: attempt_at_def add.assoc)
  qed
  have here: "attempt_at g apart units rnd (pos + length units) k = Some tg"
    using Suc.prems(4) by (simp add: attempt_at_def add.assoc)
  have "attempt_loop (attempt + 1) g persons apart together rnd (pos + length units)
      = Some (Inr (map sort tg), pos + length units + (k + 1) * length units)"
    using Suc.prems(1,2) m rest here by (intro Suc.IH [of _ m]) simp_all
  then show ?case using Suc.prems(1) m ok first
    by (subst attempt_loop_unfold [OF mu]) (simp add: add.assoc)
qed

text \<open>The three outcomes of the attempt loop started at attempt 0.\<close>

lemma attempt_loop_outcome:
  assumes mu: "make_units persons together = Some (Inr units)"
  shows "(oversized persons g units
        \<and> attempt_loop 0 g persons apart together rnd pos = Some (Inl ErrorCliqueSize, pos))
    \<or> (\<not> oversized persons g units \<and> (\<forall>k<50. attempt_at g apart units rnd pos k = None)
        \<and> attempt_loop 0 g persons apart together rnd pos
            = Some (Inl ErrorFailedConstraints, pos + 50 * length units))
    \<or> (\<not> oversized persons g units
        \<and> (\<exists>k<50. \<exists>tg. (\<forall>j<k. attempt_at g apart units rnd pos j = None)
              \<and> attempt_at g apart units rnd pos k = Some tg
              \<and> attempt_loop 0 g persons apart together rnd pos
                  = Some (Inr (map sort tg), pos + (k + 1) * length units)))"
proof (cases "oversized persons g units")
  case True
  then show ?thesis using attempt_loop_oversized [OF mu True, of 0] by simp
next
  case False
  show ?thesis
  proof (cases "\<forall>k<50. attempt_at g apart units rnd pos k = None")
    case True
    then show ?thesis using attempt_loop_exhaust [OF mu False, of 0 50] False by simp
  next
    case ex: False
    define P where "P k \<longleftrightarrow> k < 50 \<and> attempt_at g apart units rnd pos k \<noteq> None" for k
    have "\<exists>k. P k" using ex by (auto simp: P_def)
    then obtain k where k: "P k" "\<forall>j<k. \<not> P j"
      using exists_least_iff [of P] by blast
    then obtain tg where tg: "attempt_at g apart units rnd pos k = Some tg"
      by (auto simp: P_def)
    have lt: "k < 50" using k(1) by (simp add: P_def)
    have before: "\<forall>j<k. attempt_at g apart units rnd pos j = None"
      using k(2) lt by (auto simp: P_def)
    have "attempt_loop 0 g persons apart together rnd pos
        = Some (Inr (map sort tg), pos + (k + 1) * length units)"
      using lt before tg by (intro attempt_loop_success [OF mu False, of 0 50]) simp_all
    then show ?thesis using False lt before tg by blast
  qed
qed

section \<open>Validation\<close>

lemma fold_new_Set_set:
  "set (fold (\<lambda>x s. if x \<in> set s then s else s @ [x]) xs acc) = set acc \<union> set xs"
  by (induction xs arbitrary: acc) auto

lemma fold_new_Set_distinct:
  "distinct acc \<Longrightarrow> distinct (fold (\<lambda>x s. if x \<in> set s then s else s @ [x]) xs acc)"
  by (induction xs arbitrary: acc) auto

lemma fold_new_Set_append:
  "distinct xs \<Longrightarrow> set xs \<inter> set acc = {} \<Longrightarrow>
   fold (\<lambda>x s. if x \<in> set s then s else s @ [x]) xs acc = acc @ xs"
  by (induction xs arbitrary: acc) auto

lemma new_Set_set: "set (new_Set xs) = set xs"
  by (simp add: new_Set_def fold_new_Set_set)

lemma new_Set_distinct: "distinct (new_Set xs)"
  by (simp add: new_Set_def fold_new_Set_distinct)

lemma new_Set_idem: "distinct xs \<Longrightarrow> new_Set xs = xs"
  by (simp add: new_Set_def fold_new_Set_append)

lemma shared_names_card:
  "length (shared_names apart together) = card (set (people apart) \<inter> set (people together))"
proof -
  have "distinct (shared_names apart together)"
    by (simp add: shared_names_def new_Set_distinct)
  moreover have "set (shared_names apart together) = set (people apart) \<inter> set (people together)"
    by (auto simp: shared_names_def new_Set_set)
  ultimately show ?thesis by (metis distinct_card)
qed

lemma conflicted_shared:
  "conflicted apart together =
     (if 2 \<le> card (set (people apart) \<inter> set (people together))
      then Some (shared_names apart together ! 0, shared_names apart together ! 1) else None)"
proof -
  have "new_Set (filter (\<lambda>x. x \<in> set (new_Set (people together))) (new_Set (people apart)))
      = shared_names apart together"
    by (simp add: shared_names_def new_Set_set new_Set_idem new_Set_distinct)
  then show ?thesis by (simp add: conflicted_def Let_def shared_names_card)
qed

lemma conflict_together_find:
  "conflict_together apart ts =
     (case find (\<lambda>t. 2 \<le> card (set (people apart) \<inter> set (people t))) ts of
        None \<Rightarrow> None
      | Some t \<Rightarrow> Some (shared_names apart t ! 0, shared_names apart t ! 1))"
  by (induction ts) (simp_all add: conflicted_shared)

lemma find_product_Cons:
  "find P (map (Pair a) ts @ rest) =
     (case find (\<lambda>t. P (a, t)) ts of None \<Rightarrow> find P rest | Some t \<Rightarrow> Some (a, t))"
  by (induction ts) simp_all

lemma conflict_apart_first_conflict:
  "conflict_apart apartConstraints togetherConstraints
     = first_conflict apartConstraints togetherConstraints"
proof (induction apartConstraints)
  case Nil
  then show ?case by (simp add: first_conflict_def)
next
  case (Cons a as)
  then show ?case
    by (simp add: first_conflict_def conflict_together_find find_product_Cons
        split: option.splits)
qed

lemma first_conflict_exists:
  "(\<exists>names. first_conflict apartConstraints togetherConstraints = Some names)
     \<longleftrightarrow> (\<exists>apart\<in>set apartConstraints. \<exists>together\<in>set togetherConstraints.
            2 \<le> card (set (people apart) \<inter> set (people together)))"
proof -
  let ?P = "\<lambda>(apart, together). 2 \<le> card (set (people apart) \<inter> set (people together))"
  let ?xs = "List.product apartConstraints togetherConstraints"
  have "(\<exists>names. first_conflict apartConstraints togetherConstraints = Some names)
      \<longleftrightarrow> find ?P ?xs \<noteq> None"
    by (auto simp: first_conflict_def split: option.splits)
  also have "\<dots> \<longleftrightarrow> (\<exists>apart\<in>set apartConstraints. \<exists>together\<in>set togetherConstraints.
            2 \<le> card (set (people apart) \<inter> set (people together)))"
    by (auto simp: find_None_iff)
  finally show ?thesis .
qed

section \<open>The candidate order\<close>

lemma insort_key_pair:
  fixes f :: "nat \<Rightarrow> nat"
  assumes "\<forall>y\<in>set ys. i < y"
  shows "insort_key (\<lambda>i. (f i, i)) i ys = insort_key f i ys"
  using assms by (induction ys) auto

lemma sort_key_pair:
  fixes f :: "nat \<Rightarrow> nat"
  assumes "sorted_wrt (<) xs"
  shows "sort_key (\<lambda>i. (f i, i)) xs = sort_key f xs"
  using assms
proof (induction xs)
  case Nil
  then show ?case by simp
next
  case (Cons x xs)
  then have "\<forall>y\<in>set (sort_key f xs). x < y" by simp
  then have "insort_key (\<lambda>i. (f i, i)) x (sort_key f xs) = insort_key f x (sort_key f xs)"
    by (rule insort_key_pair)
  then show ?case using Cons by simp
qed

lemma groupOrder_candidate_order: "groupOrder tempGroups = candidate_order tempGroups"
  by (simp add: groupOrder_def candidate_order_def sort_key_pair)

lemma groupHasApartPerson_eligible:
  "groupHasApartPerson apartConstraints members unit \<longleftrightarrow> \<not> eligible apartConstraints members unit"
  by (simp add: groupHasApartPerson_def eligible_def list_ex_iff)

lemma scan_groups_place_first:
  "scan_groups apartConstraints tempGroups unit (groupOrder tempGroups)
     = place_first apartConstraints tempGroups unit"
  by (simp add: scan_groups_find place_first_def groupOrder_candidate_order
      groupHasApartPerson_eligible split: option.splits)

section \<open>The handler\<close>

lemma make_units_total: "\<exists>made. make_units persons together = Some made"
proof -
  from make_units_correct [of persons together] obtain made where
    "make_units persons together = Some made" by (elim exE conjE)
  then show ?thesis by (rule exI)
qed

lemma make_units_mset:
  assumes "make_units persons together = Some (Inr units)"
  shows "mset (concat units) = mset persons"
proof -
  from make_units_correct [of persons together] obtain made where
    "make_units persons together = Some made"
    "\<forall>units. made = Inr units \<longrightarrow> mset (concat units) = mset persons
     \<and> (\<forall>a b. together_linked together a b \<longrightarrow> a \<in> set persons \<longrightarrow> b \<in> set persons
          \<longrightarrow> (\<exists>u\<in>set units. a \<in> set u \<and> b \<in> set u))"
    by (elim exE conjE)
  then show ?thesis using assms by simp
qed

lemma make_units_linked:
  assumes "make_units persons together = Some (Inr units)"
    and "together_linked together a b" and "a \<in> set persons" and "b \<in> set persons"
  shows "\<exists>u\<in>set units. a \<in> set u \<and> b \<in> set u"
proof -
  from make_units_correct [of persons together] obtain made where
    u: "make_units persons together = Some made" and
    l: "\<forall>units. made = Inr units \<longrightarrow> mset (concat units) = mset persons
     \<and> (\<forall>a b. together_linked together a b \<longrightarrow> a \<in> set persons \<longrightarrow> b \<in> set persons
          \<longrightarrow> (\<exists>u\<in>set units. a \<in> set u \<and> b \<in> set u))"
    by (elim exE conjE)
  have "made = Inr units" using u assms(1) by simp
  with l have "\<forall>a b. together_linked together a b \<longrightarrow> a \<in> set persons \<longrightarrow> b \<in> set persons
          \<longrightarrow> (\<exists>u\<in>set units. a \<in> set u \<and> b \<in> set u)" by simp
  then show ?thesis using assms(2-4) by blast
qed

lemma handle_pass:
  assumes "\<not> (naming = Custom \<and> g < 2)" and "\<not> int (length persons) < g"
    and "conflict_apart apart together = None"
  shows "handleGenerateGroups naming g persons apart together rnd pos
    = attempt_loop 0 g persons apart together rnd pos"
  using assms by (auto simp: handleGenerateGroups_def)

lemma handle_success:
  assumes "handleGenerateGroups naming g persons apart together rnd pos = Some (Inr groups, pos')"
  shows "\<exists>units tg k. make_units persons together = Some (Inr units) \<and> k < 50
    \<and> attempt_at g apart units rnd pos k = Some tg \<and> groups = map sort tg
    \<and> pos' = pos + (k + 1) * length units"
proof -
  have run: "attempt_loop 0 g persons apart together rnd pos = Some (Inr groups, pos')"
    using assms by (auto simp: handleGenerateGroups_def split: if_splits option.splits)
  from make_units_total [of persons together] obtain made where
    made: "make_units persons together = Some made" by (elim exE)
  have "\<exists>units. made = Inr units"
  proof (cases made)
    case (Inl e)
    then have "attempt_loop 0 g persons apart together rnd pos = Some (Inl UncaughtTypeError, pos)"
      using made by (intro attempt_loop_throws [of _ _ e]) simp_all
    then show ?thesis using run by simp
  next
    case (Inr units)
    then show ?thesis by (rule exI)
  qed
  then obtain units where mu: "make_units persons together = Some (Inr units)"
    using made by (elim exE) simp
  from attempt_loop_outcome [OF mu, of g apart rnd pos] run
  obtain k tg where k: "k < 50" "attempt_at g apart units rnd pos k = Some tg"
    "attempt_loop 0 g persons apart together rnd pos
      = Some (Inr (map sort tg), pos + (k + 1) * length units)"
    by auto
  have "groups = map sort tg" "pos' = pos + (k + 1) * length units"
    using k(3) run by simp_all
  then show ?thesis using mu k(1,2) by (intro exI conjI)
qed

lemma mset_concat_map_sort:
  "mset (concat (map sort (tg :: ('a :: linorder) list list))) = mset (concat tg)"
  by (induction tg) simp_all

lemma distinct_concat_same:
  assumes "distinct (concat gs)" and "g1 \<in> set gs" and "g2 \<in> set gs"
    and "a \<in> set g1" and "a \<in> set g2"
  shows "g1 = g2"
  using assms by (auto simp: distinct_concat_iff)



text \<open>
  C1.  When the handler succeeds on a duplicate-free list of people, with a group count
  that is not negative, the result has exactly \<open>finalGroupCount\<close> groups, the groups
  together hold exactly the people, nobody is in two groups or twice in one, and every
  group is sorted in ascending lexicographic order.
\<close>

theorem partition_complete_sorted:
  assumes "handleGenerateGroups naming finalGroupCount persons apartConstraints
      togetherConstraints rnd pos = Some (Inr groups, pos')"
    and "distinct persons" and "0 \<le> finalGroupCount"
  shows "int (length groups) = finalGroupCount
    \<and> set (concat groups) = set persons
    \<and> distinct (concat groups)
    \<and> (\<forall>members\<in>set groups. sorted members)"
proof -
  from handle_success [OF assms(1)] obtain units tg k where
    mu: "make_units persons togetherConstraints = Some (Inr units)" and
    at: "attempt_at finalGroupCount apartConstraints units rnd pos k = Some tg" and
    gs: "groups = map sort tg"
    by (elim exE conjE)
  have pu: "mset (concat units) = mset persons" using mu by (rule make_units_mset)
  from one_attempt_correct [OF at [unfolded attempt_at_def]]
  have len: "length tg = nat finalGroupCount" and mc: "mset (concat tg) = mset (concat units)"
    by simp_all
  have m: "mset (concat groups) = mset persons"
    using gs mc pu by (simp add: mset_concat_map_sort)
  have "int (length groups) = finalGroupCount" using gs len assms(3) by simp
  moreover have "set (concat groups) = set persons" using m by (rule mset_eq_setD)
  moreover have "distinct (concat groups)"
    using mset_eq_imp_distinct_iff [OF m] assms(2) by simp
  moreover have "\<forall>members\<in>set groups. sorted members" using gs by auto
  ultimately show ?thesis by blast
qed

text \<open>
  C3.  In every successful result, all members of a together-constraint (a non-empty one,
  of people of the list) are in one group; any two people linked in the together-graph are
  in one group; and every unit computed by the union-find lies within one group.
\<close>

theorem together_never_split:
  assumes "handleGenerateGroups naming finalGroupCount persons apartConstraints
      togetherConstraints rnd pos = Some (Inr groups, pos')"
    and "distinct persons"
  shows "(\<forall>c\<in>set togetherConstraints. people c \<noteq> [] \<longrightarrow> set (people c) \<subseteq> set persons \<longrightarrow>
            (\<exists>members\<in>set groups. set (people c) \<subseteq> set members))
    \<and> (\<forall>a b. together_linked togetherConstraints a b \<longrightarrow> a \<in> set persons \<longrightarrow> b \<in> set persons \<longrightarrow>
            (\<exists>members\<in>set groups. a \<in> set members \<and> b \<in> set members))
    \<and> (\<exists>units. make_units persons togetherConstraints = Some (Inr units)
          \<and> (\<forall>unit\<in>set units. \<exists>members\<in>set groups. set unit \<subseteq> set members))"
proof -
  from handle_success [OF assms(1)] obtain units tg k where
    mu: "make_units persons togetherConstraints = Some (Inr units)" and
    at: "attempt_at finalGroupCount apartConstraints units rnd pos k = Some tg" and
    gs: "groups = map sort tg"
    by (elim exE conjE)
  have pu: "mset (concat units) = mset persons" using mu by (rule make_units_mset)
  note lk = make_units_linked [OF mu]
  from one_attempt_correct [OF at [unfolded attempt_at_def]]
  have mc: "mset (concat tg) = mset (concat units)" and
    un: "\<forall>u\<in>set units. \<exists>grp\<in>set tg. set u \<subseteq> set grp"
    by simp_all
  have units: "\<forall>unit\<in>set units. \<exists>members\<in>set groups. set unit \<subseteq> set members"
  proof
    fix unit assume "unit \<in> set units"
    then obtain grp where "grp \<in> set tg" "set unit \<subseteq> set grp" using un by blast
    then have "sort grp \<in> set groups" "set unit \<subseteq> set (sort grp)" using gs by simp_all
    then show "\<exists>members\<in>set groups. set unit \<subseteq> set members" by blast
  qed
  have linked: "\<exists>members\<in>set groups. a \<in> set members \<and> b \<in> set members"
    if "together_linked togetherConstraints a b" "a \<in> set persons" "b \<in> set persons" for a b
  proof -
    from lk [OF that] obtain u where "u \<in> set units" "a \<in> set u" "b \<in> set u" by blast
    then show ?thesis using units by blast
  qed
  have m: "mset (concat groups) = mset persons"
    using gs mc pu by (simp add: mset_concat_map_sort)
  have d: "distinct (concat groups)" using mset_eq_imp_distinct_iff [OF m] assms(2) by simp
  have whole: "\<exists>members\<in>set groups. set (people c) \<subseteq> set members"
    if c: "c \<in> set togetherConstraints" "people c \<noteq> []" "set (people c) \<subseteq> set persons" for c
  proof -
    obtain a where a: "a \<in> set (people c)" using c(2) by (cases "people c") auto
    then have ap: "a \<in> set persons" using c(3) by blast
    have "together_linked togetherConstraints a a" by (rule together_linked.self)
    from linked [OF this ap ap] obtain g0 where g0: "g0 \<in> set groups" "a \<in> set g0" by blast
    have "b \<in> set g0" if b: "b \<in> set (people c)" for b
    proof -
      have "together_linked togetherConstraints a b"
        using c(1) a b by (rule together_linked.member)
      moreover have "b \<in> set persons" using b c(3) by blast
      ultimately obtain g1 where g1: "g1 \<in> set groups" "a \<in> set g1" "b \<in> set g1"
        using linked ap by blast
      have "g1 = g0" using d g1(1) g0(1) g1(2) g0(2) by (rule distinct_concat_same)
      then show ?thesis using g1(3) by simp
    qed
    then show ?thesis using g0(1) by blast
  qed
  show ?thesis using whole linked units mu by blast
qed

text \<open>
  C4.  One packing attempt places the units, in shuffled order, each into the first
  eligible group of the candidate order (smallest size first, ties by group index), and
  fails at the first unit without an eligible group.
\<close>

lemma place_units_pack_units:
  "place_units apartConstraints tempGroups units = pack_units apartConstraints tempGroups units"
  by (induction units arbitrary: tempGroups)
    (simp_all add: scan_groups_place_first split: option.splits)

theorem packing_order:
  "fst (one_attempt finalGroupCount apartConstraints shuffleUnits rnd pos)
     = pack_units apartConstraints (replicate (nat finalGroupCount) [])
         (fst (shuffleArray shuffleUnits rnd pos))"
  by (simp add: one_attempt_def Let_def place_units_pack_units split: prod.splits)

text \<open>
  C8.  With fewer people than groups the handler sets the error InsufficientPeople, for
  every random source and without consuming a draw.  (In custom naming mode a count below 2
  is rejected before, with its own message.)
\<close>

theorem insufficient_people:
  assumes "naming = Custom \<longrightarrow> 2 \<le> finalGroupCount"
    and "int (length persons) < finalGroupCount"
  shows "handleGenerateGroups naming finalGroupCount persons apartConstraints
      togetherConstraints rnd pos = Some (Inl ErrorMorePeople, pos)"
  using assms by (auto simp: handleGenerateGroups_def)

lemma make_units_cases:
  obtains (throws) "make_units persons together = Some (Inl TypeError)"
  | (units) units where "make_units persons together = Some (Inr units)"
proof -
  from make_units_total [of persons together] obtain made where
    made: "make_units persons together = Some made" by (elim exE)
  show ?thesis
  proof (cases made)
    case (Inl e)
    then have "make_units persons together = Some (Inl TypeError)" using made by (cases e) simp
    then show ?thesis by (rule throws)
  next
    case (Inr units)
    then have "make_units persons together = Some (Inr units)" using made by simp
    then show ?thesis by (rule units)
  qed
qed

lemma attempt_loop_errors:
  assumes "attempt_loop 0 g persons apart together rnd pos = Some (Inl e, pos')"
  shows "e = ErrorCliqueSize \<or> e = ErrorFailedConstraints \<or> e = UncaughtTypeError"
proof (cases rule: make_units_cases [of persons together])
  case throws
  then have "attempt_loop 0 g persons apart together rnd pos = Some (Inl UncaughtTypeError, pos)"
    by (rule attempt_loop_throws) simp
  then show ?thesis using assms by simp
next
  case (units units)
  from attempt_loop_outcome [OF units, of g apart rnd pos] assms show ?thesis by auto
qed


section \<open>The attempt budget\<close>

text \<open>
  The handler comes to an end for every input and every random source: either the timer
  callback throws a \<open>TypeError\<close> while it builds the cliques of the first attempt, or the
  handler makes at most 50 attempts, one shuffle of the units each, and reports
  UnsatisfiableConstraints exactly when the validation passes and all 50 attempts fail.
\<close>

lemma attempt_budget:
  "\<exists>res pos'.
     handleGenerateGroups naming finalGroupCount persons apartConstraints togetherConstraints rnd pos
       = Some (res, pos')
     \<and> (res = Inl UncaughtTypeError \<longleftrightarrow>
          \<not> (naming = Custom \<and> finalGroupCount < 2)
          \<and> \<not> int (length persons) < finalGroupCount
          \<and> conflict_apart apartConstraints togetherConstraints = None
          \<and> make_units persons togetherConstraints = Some (Inl TypeError))
     \<and> (\<forall>units. make_units persons togetherConstraints = Some (Inr units) \<longrightarrow>
          pos' \<le> pos + 50 * length units
          \<and> (res = Inl ErrorFailedConstraints \<longleftrightarrow>
               \<not> (naming = Custom \<and> finalGroupCount < 2)
               \<and> \<not> int (length persons) < finalGroupCount
               \<and> conflict_apart apartConstraints togetherConstraints = None
               \<and> \<not> oversized persons finalGroupCount units
               \<and> (\<forall>k<50. attempt_at finalGroupCount apartConstraints units rnd pos k = None))
          \<and> (res = Inl ErrorFailedConstraints \<longrightarrow> pos' = pos + 50 * length units))"
proof -
  let ?run = "handleGenerateGroups naming finalGroupCount persons apartConstraints
    togetherConstraints rnd pos"
  let ?pass = "\<not> (naming = Custom \<and> finalGroupCount < 2)
    \<and> \<not> int (length persons) < finalGroupCount
    \<and> conflict_apart apartConstraints togetherConstraints = None"
  show ?thesis
  proof (cases ?pass)
    case False
    then have "\<exists>e. ?run = Some (Inl e, pos) \<and> e \<noteq> ErrorFailedConstraints \<and> e \<noteq> UncaughtTypeError"
      by (auto simp: handleGenerateGroups_def split: option.splits)
    then show ?thesis using False by auto
  next
    case True
    then have run: "?run = attempt_loop 0 finalGroupCount persons apartConstraints
        togetherConstraints rnd pos"
      by (intro handle_pass) simp_all
    show ?thesis
    proof (cases rule: make_units_cases [of persons togetherConstraints])
      case throws
      then have "?run = Some (Inl UncaughtTypeError, pos)"
        unfolding run by (rule attempt_loop_throws) simp
      then show ?thesis using throws True by simp
    next
      case (units units)
      let ?all = "\<forall>k<50. attempt_at finalGroupCount apartConstraints units rnd pos k = None"
      from attempt_loop_outcome [OF units, of finalGroupCount apartConstraints rnd pos]
      consider
        (over) "oversized persons finalGroupCount units" "?run = Some (Inl ErrorCliqueSize, pos)"
      | (fail) "\<not> oversized persons finalGroupCount units" "?all"
          "?run = Some (Inl ErrorFailedConstraints, pos + 50 * length units)"
      | (placed) k tg where "k < 50"
          "attempt_at finalGroupCount apartConstraints units rnd pos k = Some tg"
          "?run = Some (Inr (map sort tg), pos + (k + 1) * length units)"
        unfolding run by blast
      then show ?thesis
      proof cases
        case over
        then show ?thesis using units by auto
      next
        case fail
        then show ?thesis using True units by auto
      next
        case placed
        have "(k + 1) * length units \<le> 50 * length units"
          using placed(1) by (intro mult_le_mono1) simp
        moreover have "\<not> ?all" using placed(1,2) by auto
        ultimately show ?thesis using placed(3) units by auto
      qed
    qed
  qed
qed


text \<open>
  C7, as amended.  The handler reports ConflictingConstraint exactly when the earlier
  checks pass (group count, number of people) and some apart-constraint and some
  together-constraint share at least two people.  The names reported are the first two
  shared names of the first such pair in iteration order, and no draw has been consumed.
\<close>

theorem conflicting_constraint_iff:
  "((\<exists>x y pos'. handleGenerateGroups naming finalGroupCount persons apartConstraints
        togetherConstraints rnd pos = Some (Inl (ErrorConflict x y), pos'))
      \<longleftrightarrow> \<not> (naming = Custom \<and> finalGroupCount < 2)
          \<and> finalGroupCount \<le> int (length persons)
          \<and> (\<exists>apart\<in>set apartConstraints. \<exists>together\<in>set togetherConstraints.
                2 \<le> card (set (people apart) \<inter> set (people together))))
   \<and> (\<forall>x y pos'. handleGenerateGroups naming finalGroupCount persons apartConstraints
        togetherConstraints rnd pos = Some (Inl (ErrorConflict x y), pos')
      \<longrightarrow> first_conflict apartConstraints togetherConstraints = Some (x, y) \<and> pos' = pos)"
proof -
  let ?run = "handleGenerateGroups naming finalGroupCount persons apartConstraints
    togetherConstraints rnd pos"
  let ?early = "(naming = Custom \<and> finalGroupCount < 2) \<or> int (length persons) < finalGroupCount"
  have names: "first_conflict apartConstraints togetherConstraints = Some (x, y) \<and> pos' = pos
      \<and> \<not> ?early"
    if "?run = Some (Inl (ErrorConflict x y), pos')" for x y pos'
  proof (cases ?early)
    case True
    then have "?run = Some (Inl ErrorMinTwoCustom, pos) \<or> ?run = Some (Inl ErrorMorePeople, pos)"
      by (auto simp: handleGenerateGroups_def)
    then show ?thesis using that by auto
  next
    case False
    show ?thesis
    proof (cases "conflict_apart apartConstraints togetherConstraints")
      case None
      then have "?run = attempt_loop 0 finalGroupCount persons apartConstraints
          togetherConstraints rnd pos"
        using False by (intro handle_pass) simp_all
      then have "attempt_loop 0 finalGroupCount persons apartConstraints
          togetherConstraints rnd pos = Some (Inl (ErrorConflict x y), pos')"
        using that by simp
      from attempt_loop_errors [OF this] show ?thesis by simp
    next
      case (Some names)
      then show ?thesis using that False
        by (cases names) (auto simp: handleGenerateGroups_def conflict_apart_first_conflict)
    qed
  qed
  have found: "\<exists>x y. ?run = Some (Inl (ErrorConflict x y), pos)"
    if "\<not> ?early" "first_conflict apartConstraints togetherConstraints = Some names" for names
    using that
    by (cases names) (auto simp: handleGenerateGroups_def conflict_apart_first_conflict)
  have "(\<exists>x y pos'. ?run = Some (Inl (ErrorConflict x y), pos'))
      \<longleftrightarrow> \<not> ?early \<and> (\<exists>names. first_conflict apartConstraints togetherConstraints = Some names)"
    using names found by blast
  then have "(\<exists>x y pos'. ?run = Some (Inl (ErrorConflict x y), pos'))
      \<longleftrightarrow> \<not> (naming = Custom \<and> finalGroupCount < 2)
          \<and> finalGroupCount \<le> int (length persons)
          \<and> (\<exists>apart\<in>set apartConstraints. \<exists>together\<in>set togetherConstraints.
                2 \<le> card (set (people apart) \<inter> set (people together)))"
    unfolding first_conflict_exists by (simp add: not_less)
  then show ?thesis using names by blast
qed

theorem partition_complete_sorted_witness:
  "handleGenerateGroups Count 2 [''A'', ''B'', ''C'', ''D''] [] [\<lparr>people = [''A'', ''B'']\<rparr>]
       zero_draws 0 = Some (Inr [[''A'', ''B'', ''C''], [''D'']], 3)
   \<and> distinct [''A'', ''B'', ''C'', ''D'']
   \<and> int (length [[''A'', ''B'', ''C''], [''D'']]) = 2
   \<and> set (concat [[''A'', ''B'', ''C''], [''D'']]) = set [''A'', ''B'', ''C'', ''D'']
   \<and> distinct (concat [[''A'', ''B'', ''C''], [''D'']])
   \<and> sorted [''A'', ''B'', ''C''] \<and> sorted [''D'']"
proof -
  have run: "handleGenerateGroups Count 2 [''A'', ''B'', ''C'', ''D''] []
      [\<lparr>people = [''A'', ''B'']\<rparr>] zero_draws 0 = Some (Inr [[''A'', ''B'', ''C''], [''D'']], 3)"
    by code_simp
  have d: "distinct [''A'', ''B'', ''C'', ''D'']" by simp
  have g: "(0 :: int) \<le> 2" by simp
  from partition_complete_sorted [OF run d g]
  have "int (length [[''A'', ''B'', ''C''], [''D'']]) = 2
    \<and> set (concat [[''A'', ''B'', ''C''], [''D'']]) = set [''A'', ''B'', ''C'', ''D'']
    \<and> distinct (concat [[''A'', ''B'', ''C''], [''D'']])
    \<and> (\<forall>members\<in>set [[''A'', ''B'', ''C''], [''D'']]. sorted members)" .
  moreover from this have "sorted [''A'', ''B'', ''C''] \<and> sorted [''D'']"
    by simp
  ultimately show ?thesis using run d by blast
qed

theorem together_never_split_witness:
  "handleGenerateGroups Count 2 [''A'', ''B'', ''C'', ''D''] [] [\<lparr>people = [''A'', ''B'']\<rparr>]
       zero_draws 0 = Some (Inr [[''A'', ''B'', ''C''], [''D'']], 3)
   \<and> distinct [''A'', ''B'', ''C'', ''D'']
   \<and> (\<exists>members\<in>set [[''A'', ''B'', ''C''], [''D'']]. set [''A'', ''B''] \<subseteq> set members)"
proof -
  have run: "handleGenerateGroups Count 2 [''A'', ''B'', ''C'', ''D''] []
      [\<lparr>people = [''A'', ''B'']\<rparr>] zero_draws 0 = Some (Inr [[''A'', ''B'', ''C''], [''D'']], 3)"
    by code_simp
  have d: "distinct [''A'', ''B'', ''C'', ''D'']" by simp
  from together_never_split [OF run d]
  have "\<forall>c\<in>set [\<lparr>people = [''A'', ''B'']\<rparr>]. people c \<noteq> [] \<longrightarrow>
      set (people c) \<subseteq> set [''A'', ''B'', ''C'', ''D''] \<longrightarrow>
      (\<exists>members\<in>set [[''A'', ''B'', ''C''], [''D'']]. set (people c) \<subseteq> set members)"
    by (rule conjunct1)
  then have "\<exists>members\<in>set [[''A'', ''B'', ''C''], [''D'']]. set [''A'', ''B''] \<subseteq> set members"
    by simp
  then show ?thesis using run d by blast
qed

theorem packing_order_witness:
  "fst (one_attempt 2 [] [[''A'', ''B''], [''C''], [''D'']] zero_draws 0)
     = pack_units [] (replicate (nat 2) [])
         (fst (shuffleArray [[''A'', ''B''], [''C''], [''D'']] zero_draws 0))
   \<and> pack_units [] (replicate (nat 2) [])
         (fst (shuffleArray [[''A'', ''B''], [''C''], [''D'']] zero_draws 0))
     = Some [[''C'', ''A'', ''B''], [''D'']]"
proof -
  have "pack_units [] (replicate (nat 2) [])
         (fst (shuffleArray [[''A'', ''B''], [''C''], [''D'']] zero_draws 0))
     = Some [[''C'', ''A'', ''B''], [''D'']]"
    by code_simp
  then show ?thesis
    using packing_order [of 2 "[]" "[[''A'', ''B''], [''C''], [''D'']]" zero_draws 0] by blast
qed

theorem insufficient_people_witness:
  "int (length [''A'']) < 2
   \<and> handleGenerateGroups Count 2 [''A''] [] [] zero_draws 0 = Some (Inl ErrorMorePeople, 0)"
proof -
  have a: "Count = Custom \<longrightarrow> (2 :: int) \<le> 2" by simp
  have b: "int (length [''A'']) < 2" by simp
  from insufficient_people [OF a b] b show ?thesis by blast
qed


theorem conflicting_constraint_iff_witness:
  "2 \<le> card (set [''A'', ''B''] \<inter> set [''A'', ''B''])
   \<and> first_conflict [\<lparr>people = [''A'', ''B'']\<rparr>] [\<lparr>people = [''A'', ''B'']\<rparr>] = Some (''A'', ''B'')
   \<and> handleGenerateGroups Count 2 [''A'', ''B'', ''C''] [\<lparr>people = [''A'', ''B'']\<rparr>]
        [\<lparr>people = [''A'', ''B'']\<rparr>] zero_draws 0 = Some (Inl (ErrorConflict ''A'' ''B''), 0)"
proof -
  let ?c = "[\<lparr>people = [''A'', ''B'']\<rparr>]"
  have run: "handleGenerateGroups Count 2 [''A'', ''B'', ''C''] ?c ?c zero_draws 0
      = Some (Inl (ErrorConflict ''A'' ''B''), 0)"
    by code_simp
  have two: "2 \<le> card (set [''A'', ''B''] \<inter> set [''A'', ''B''])" by simp
  from conflicting_constraint_iff [of Count 2 "[''A'', ''B'', ''C'']" ?c ?c zero_draws 0] run
  have "first_conflict ?c ?c = Some (''A'', ''B'')" by blast
  then show ?thesis using run two by blast
qed

lemma shuffleArray_two:
  "shuffleArray [x, y] rnd pos = (if rnd pos mod 2 = 0 then [y, x] else [x, y], pos + 2)"
proof -
  have sl: "shuffleArray [x, y] rnd pos
      = (let r = rnd pos mod 2 in ([x, y][1 := [x, y] ! r, r := y], pos + 2))"
    by (simp add: shuffleArray_def numeral_2_eq_2 Let_def)
  consider "rnd pos mod 2 = 0" | "rnd pos mod 2 = 1" by arith
  then show ?thesis by cases (simp_all add: sl)
qed

text \<open>
  C10.  Four people, the together-constraints \<open>{A, B}\<close> and \<open>{C, D}\<close> and three
  groups pass every validation check, and for every random source the handler succeeds
  with an empty third group.
\<close>

theorem empty_group_possible:
  "(3 :: int) \<le> int (length [''A'', ''B'', ''C'', ''D''])
   \<and> conflict_apart [] [\<lparr>people = [''A'', ''B'']\<rparr>, \<lparr>people = [''C'', ''D'']\<rparr>] = None
   \<and> make_units [''A'', ''B'', ''C'', ''D''] [\<lparr>people = [''A'', ''B'']\<rparr>, \<lparr>people = [''C'', ''D'']\<rparr>]
       = Some (Inr [[''A'', ''B''], [''C'', ''D'']])
   \<and> \<not> oversized [''A'', ''B'', ''C'', ''D''] 3 [[''A'', ''B''], [''C'', ''D'']]
   \<and> handleGenerateGroups Count 3 [''A'', ''B'', ''C'', ''D''] []
         [\<lparr>people = [''A'', ''B'']\<rparr>, \<lparr>people = [''C'', ''D'']\<rparr>] rnd pos
       = Some (Inr (if rnd pos mod 2 = 0 then [[''C'', ''D''], [''A'', ''B''], []]
                    else [[''A'', ''B''], [''C'', ''D''], []]), pos + 2)"
proof -
  let ?P = "[''A'', ''B'', ''C'', ''D'']"
  let ?T = "[\<lparr>people = [''A'', ''B'']\<rparr>, \<lparr>people = [''C'', ''D'']\<rparr>]"
  let ?U = "[[''A'', ''B''], [''C'', ''D'']]"
  have len: "(3 :: int) \<le> int (length ?P)" by simp
  have nc: "conflict_apart [] ?T = None" by simp
  have mu: "make_units ?P ?T = Some (Inr ?U)" by code_simp
  have ok: "\<not> oversized ?P 3 ?U" by (simp add: oversized_def exceeds_ceiling_def)
  have p1: "place_units [] (replicate (nat 3) []) [[''C'', ''D''], [''A'', ''B'']]
      = Some [[''C'', ''D''], [''A'', ''B''], []]"
    by code_simp
  have p2: "place_units [] (replicate (nat 3) []) [[''A'', ''B''], [''C'', ''D'']]
      = Some [[''A'', ''B''], [''C'', ''D''], []]"
    by code_simp
  have s1: "map sort [[''C'', ''D''], [''A'', ''B''], []] = [[''C'', ''D''], [''A'', ''B''], []]"
    by code_simp
  have s2: "map sort [[''A'', ''B''], [''C'', ''D''], []] = [[''A'', ''B''], [''C'', ''D''], []]"
    by code_simp
  have oa: "fst (one_attempt 3 [] ?U rnd pos)
      = Some (if rnd pos mod 2 = 0 then [[''C'', ''D''], [''A'', ''B''], []]
              else [[''A'', ''B''], [''C'', ''D''], []])"
    using p1 p2 by (simp add: one_attempt_def shuffleArray_two)
  have "handleGenerateGroups Count 3 ?P [] ?T rnd pos = attempt_loop 0 3 ?P [] ?T rnd pos"
    using nc by (intro handle_pass) simp_all
  also have "\<dots> = Some (Inr (map sort (if rnd pos mod 2 = 0
        then [[''C'', ''D''], [''A'', ''B''], []]
        else [[''A'', ''B''], [''C'', ''D''], []])), pos + length ?U)"
    using ok oa by (subst attempt_loop_unfold [OF mu]) simp
  also have "\<dots> = Some (Inr (if rnd pos mod 2 = 0 then [[''C'', ''D''], [''A'', ''B''], []]
                    else [[''A'', ''B''], [''C'', ''D''], []]), pos + 2)"
    using s1 s2 by simp
  finally show ?thesis using len nc mu ok by (intro conjI)
qed

text \<open>
  C2.  The together-constraints \<open>{A, B}\<close> and \<open>{B, C}\<close> put \<open>A\<close> and \<open>C\<close> into one
  unit; the apart-constraint \<open>{A, C}\<close> shares only one person with each of them, so the
  conflict check passes, and the result has \<open>A\<close> and \<open>C\<close> in one group.
\<close>

theorem apart_pair_in_one_group:
  "conflict_apart [\<lparr>people = [''A'', ''C'']\<rparr>]
       [\<lparr>people = [''A'', ''B'']\<rparr>, \<lparr>people = [''B'', ''C'']\<rparr>] = None
   \<and> handleGenerateGroups Count 2 [''A'', ''B'', ''C'', ''D'', ''E''] [\<lparr>people = [''A'', ''C'']\<rparr>]
       [\<lparr>people = [''A'', ''B'']\<rparr>, \<lparr>people = [''B'', ''C'']\<rparr>] zero_draws 0
     = Some (Inr [[''A'', ''B'', ''C'', ''D''], [''E'']], 3)"
  by code_simp

text \<open>
  C5.  The people \<open>constructor\<close> and \<open>A\<close>, two groups and no constraint pass every
  validation check.  In the first attempt \<open>constructor\<close> is its own root, and
  \<open>cliques["constructor"]\<close> is the function that every plain object inherits: no array is
  created, and the call of \<open>push\<close> throws a \<open>TypeError\<close> inside the timer callback.  For
  every random source the handler then neither reports UnsatisfiableConstraints or another
  error nor delivers groups, and no draw is consumed.
\<close>

theorem type_error_never_settles:
  "\<not> int (length [''constructor'', ''A'']) < 2
   \<and> conflict_apart [] [] = None
   \<and> make_units [''constructor'', ''A''] [] = Some (Inl TypeError)
   \<and> handleGenerateGroups naming 2 [''constructor'', ''A''] [] [] rnd pos
       = Some (Inl UncaughtTypeError, pos)"
proof -
  have len: "\<not> int (length [''constructor'', ''A'']) < 2" by simp
  have nc: "conflict_apart [] [] = None" by simp
  have mu: "make_units [''constructor'', ''A''] [] = Some (Inl TypeError)" by code_simp
  have "handleGenerateGroups naming 2 [''constructor'', ''A''] [] [] rnd pos
      = attempt_loop 0 2 [''constructor'', ''A''] [] [] rnd pos"
    using nc by (intro handle_pass) simp_all
  also have "\<dots> = Some (Inl UncaughtTypeError, pos)"
    using mu by (rule attempt_loop_throws) simp
  finally show ?thesis using len nc mu by (intro conjI)
qed

text \<open>
  A person named \<open>__proto__\<close> is never its own root: the assignment
  \<open>parent["__proto__"] = "__proto__"\<close> is ignored, and \<open>find\<close> goes from
  \<open>Object.prototype\<close> over \<open>undefined\<close> to the person named \<open>undefined\<close>.  The two form
  a unit without any together-constraint, and with three groups the handler reports
  OversizedClique.
\<close>

lemma proto_person_joins_undefined:
  "make_units [''undefined'', ''__proto__'', ''B''] [] = Some (Inr [[''undefined'', ''__proto__''], [''B'']])
   \<and> handleGenerateGroups naming 3 [''undefined'', ''__proto__'', ''B''] [] [] rnd pos
       = Some (Inl ErrorCliqueSize, pos)"
proof -
  let ?P = "[''undefined'', ''__proto__'', ''B'']"
  let ?U = "[[''undefined'', ''__proto__''], [''B'']]"
  have nc: "conflict_apart [] [] = None" by simp
  have mu: "make_units ?P [] = Some (Inr ?U)" by code_simp
  have over: "oversized ?P 3 ?U" by (simp add: oversized_def exceeds_ceiling_def)
  have "handleGenerateGroups naming 3 ?P [] [] rnd pos = attempt_loop 0 3 ?P [] [] rnd pos"
    using nc by (intro handle_pass) simp_all
  also have "\<dots> = Some (Inl ErrorCliqueSize, pos)"
    using mu over by (rule attempt_loop_oversized) simp
  finally show ?thesis using mu by (intro conjI)
qed


text \<open>
  C7 as stated fails: here an apart-constraint and a together-constraint share two
  people, and the handler reports InsufficientPeople, checked before.
\<close>

theorem conflicting_constraint_counterexample:
  "2 \<le> card (set (people \<lparr>people = [''A'', ''B'']\<rparr>) \<inter> set (people \<lparr>people = [''A'', ''B'']\<rparr>))
   \<and> handleGenerateGroups Count 3 [''A'', ''B''] [\<lparr>people = [''A'', ''B'']\<rparr>]
        [\<lparr>people = [''A'', ''B'']\<rparr>] zero_draws 0
      = Some (Inl ErrorMorePeople, 0)"
proof (intro conjI)
  show "2 \<le> card (set (people \<lparr>people = [''A'', ''B'']\<rparr>) \<inter> set (people \<lparr>people = [''A'', ''B'']\<rparr>))"
    by simp
  show "handleGenerateGroups Count 3 [''A'', ''B''] [\<lparr>people = [''A'', ''B'']\<rparr>]
        [\<lparr>people = [''A'', ''B'']\<rparr>] zero_draws 0
      = Some (Inl ErrorMorePeople, 0)"
    by code_simp
qed

section \<open>The store model\<close>

lemma keeps_refl: "n \<le> length s \<Longrightarrow> keeps n s s"
  by (simp add: keeps_def)

lemma keeps_trans: "keeps n s s' \<Longrightarrow> keeps n s' s'' \<Longrightarrow> keeps n s s''"
  by (simp add: keeps_def)

lemma keeps_nth: "keeps n s s' \<Longrightarrow> a < n \<Longrightarrow> s' ! a = s ! a"
  by (metis keeps_def nth_take)

lemma keeps_append: "n \<le> length s \<Longrightarrow> keeps n s (s @ xs)"
  by (simp add: keeps_def)

lemma keeps_update: "n \<le> length s \<Longrightarrow> n \<le> a \<Longrightarrow> keeps n s (s[a := c])"
  by (simp add: keeps_def)

lemma keeps_differs_on:
  assumes "n \<le> length s" and "differs_on W s s'" and "\<forall>a\<in>W. n \<le> a"
  shows "keeps n s s'"
proof -
  have "take n s' = take n s"
  proof (rule nth_equalityI)
    show "length (take n s') = length (take n s)" using assms(2) by (simp add: differs_on_def)
  next
    fix i assume "i < length (take n s')"
    then have i: "i < n" by simp
    then have "i \<notin> W" using assms(3) by auto
    then have "s' ! i = s ! i" using assms(2) by (simp add: differs_on_def)
    then show "take n s' ! i = take n s ! i" using i by simp
  qed
  then show ?thesis using assms(1,2) by (simp add: keeps_def differs_on_def)
qed

lemma differs_on_refl: "differs_on W s s"
  by (simp add: differs_on_def)

lemma differs_on_trans: "differs_on W s s' \<Longrightarrow> differs_on W s' s'' \<Longrightarrow> differs_on W s s''"
  by (simp add: differs_on_def)

lemma keeps_strings_at: "keeps n s s' \<Longrightarrow> a < n \<Longrightarrow> strings_at s' a = strings_at s a"
  by (simp add: strings_at_def keeps_nth)

lemma keeps_refs_at: "keeps n s s' \<Longrightarrow> a < n \<Longrightarrow> refs_at s' a = refs_at s a"
  by (simp add: refs_at_def keeps_nth)

lemma keeps_constraints_at:
  assumes "keeps (length s) s s'" and "constraints_ok s a"
  shows "constraints_at s' a = constraints_at s a"
proof -
  have a: "a < length s" using assms(2) by (simp add: constraints_ok_def)
  have refs: "refs_at s' a = refs_at s a" using assms(1) a by (rule keeps_refs_at)
  have "constraint_at s' c = constraint_at s c" if "c \<in> set (refs_at s a)" for c
  proof -
    have c: "c < length s" and p: "\<And>p. s ! c = ConstraintObj p \<Longrightarrow> p < length s"
      using assms(2) that by (auto simp: constraints_ok_def list_all_iff)
    have same: "s' ! c = s ! c" using assms(1) c by (rule keeps_nth)
    show ?thesis
    proof (cases "s ! c")
      case (ConstraintObj p)
      then have "strings_at s' p = strings_at s p" using assms(1) p by (intro keeps_strings_at)
      then show ?thesis using ConstraintObj same by (simp add: constraint_at_def)
    qed (simp_all add: constraint_at_def same)
  qed
  then show ?thesis using refs by (simp add: constraints_at_def)
qed

lemma strings_at_push_store:
  "a < length s \<Longrightarrow>
   strings_at (push_store a items s) b = (if b = a then strings_at s a @ items else strings_at s b)"
  by (simp add: push_store_def strings_at_def)

lemma differs_on_push_store: "a \<in> W \<Longrightarrow> differs_on W s (push_store a items s)"
  unfolding differs_on_def push_store_def by (metis length_list_update nth_list_update_neq)

lemma keeps_push_store: "n \<le> length s \<Longrightarrow> n \<le> a \<Longrightarrow> keeps n s (push_store a items s)"
  by (simp add: push_store_def keeps_update)

lemma push_clique_store_found:
  assumes "map_of cs k = Some a" and "distinct (map snd cs)" and "\<forall>b\<in>snd ` set cs. b < length s"
  shows "push_clique k p (map (\<lambda>kv. (fst kv, strings_at s (snd kv))) cs)
    = map (\<lambda>kv. (fst kv, strings_at (push_store a [p] s) (snd kv))) cs"
  using assms
proof (induction cs)
  case Nil
  then show ?case by simp
next
  case (Cons e cs)
  obtain k0 a0 where e: "e = (k0, a0)" by (cases e)
  have a0: "a0 < length s" using Cons.prems(3) e by simp
  have rest: "a0 \<notin> snd ` set cs" using Cons.prems(2) e by (simp add: image_iff) 
  show ?case
  proof (cases "k0 = k")
    case True
    then have a: "a = a0" using Cons.prems(1) e by simp
    have "strings_at (push_store a0 [p] s) b = strings_at s b" if "b \<in> snd ` set cs" for b
      using that rest a0 by (auto simp: strings_at_push_store)
    then have "map (\<lambda>kv. (fst kv, strings_at (push_store a0 [p] s) (snd kv))) cs
        = map (\<lambda>kv. (fst kv, strings_at s (snd kv))) cs"
      by (intro map_cong) auto
    then show ?thesis using True a e a0 by (simp add: strings_at_push_store)
  next
    case False
    then have m: "map_of cs k = Some a" using Cons.prems(1) e by simp
    then have "a \<in> snd ` set cs" by (metis image_eqI map_of_SomeD snd_conv)
    then have "a \<noteq> a0" using rest by auto
    moreover have "a < length s" using \<open>a \<in> snd ` set cs\<close> Cons.prems(3) by auto
    ultimately have "strings_at (push_store a [p] s) a0 = strings_at s a0"
      by (simp add: strings_at_push_store)
    moreover have "push_clique k p (map (\<lambda>kv. (fst kv, strings_at s (snd kv))) cs)
        = map (\<lambda>kv. (fst kv, strings_at (push_store a [p] s) (snd kv))) cs"
      using m Cons.prems(2,3) by (intro Cons.IH) simp_all
    ultimately show ?thesis using False e by simp
  qed
qed

lemma push_clique_new:
  "k \<notin> fst ` set cl \<Longrightarrow> push_clique k p cl = cl @ [(k, [p])]"
  by (induction k p cl rule: push_clique.induct) auto

lemma push_clique_store_rel:
  assumes rel: "cliques_rel n s cs cl" and n: "n \<le> length s"
    and res: "push_clique_store k p cs s = (cs', s')"
  shows "cliques_rel n s' cs' (push_clique k p cl) \<and> keeps n s s'"
proof -
  have cl: "cl = map (\<lambda>kv. (fst kv, strings_at s (snd kv))) cs"
    and d: "distinct (map snd cs)" and r: "\<forall>a\<in>snd ` set cs. n \<le> a \<and> a < length s"
    using rel by (simp_all add: cliques_rel_def)
  show ?thesis
  proof (cases "map_of cs k")
    case None
    then have cs': "cs' = cs @ [(k, length s)]" and s': "s' = s @ [Strings [p]]"
      using res by (simp_all add: push_clique_store_def alloc_def push_store_def strings_at_def)
    have "k \<notin> fst ` set cl" using None cl by (simp add: map_of_eq_None_iff image_image)
    then have pc: "push_clique k p cl = cl @ [(k, [p])]" by (rule push_clique_new)
    have old: "strings_at s' b = strings_at s b" if "b \<in> snd ` set cs" for b
      using that r s' by (auto simp: strings_at_def nth_append)
    have "map (\<lambda>kv. (fst kv, strings_at s' (snd kv))) cs = cl"
      unfolding cl by (intro map_cong) (auto simp: old)
    moreover have "strings_at s' (length s) = [p]" using s' by (simp add: strings_at_def)
    ultimately have "push_clique k p cl = map (\<lambda>kv. (fst kv, strings_at s' (snd kv))) cs'"
      using pc cs' by simp
    moreover have "distinct (map snd cs')" using d r cs' by auto
    moreover have "\<forall>a\<in>snd ` set cs'. n \<le> a \<and> a < length s'" using r n cs' s' by auto
    moreover have "keeps n s s'" unfolding s' using n by (rule keeps_append)
    ultimately show ?thesis by (simp add: cliques_rel_def)
  next
    case (Some a)
    then have cs': "cs' = cs" and s': "s' = push_store a [p] s"
      using res by (simp_all add: push_clique_store_def)
    have a: "a \<in> snd ` set cs" using Some by (metis image_eqI map_of_SomeD snd_conv)
    have "push_clique k p cl = map (\<lambda>kv. (fst kv, strings_at s' (snd kv))) cs'"
      unfolding cl cs' s' using Some d r by (intro push_clique_store_found) simp_all
    moreover have "\<forall>a\<in>snd ` set cs'. n \<le> a \<and> a < length s'"
      using r cs' s' by (simp add: push_store_def)
    moreover have "keeps n s s'" unfolding s' using n a r by (intro keeps_push_store) auto
    ultimately show ?thesis using d cs' by (simp add: cliques_rel_def)
  qed
qed

lemma map_of_map_values:
  "map_of (map (\<lambda>kv. (fst kv, f (snd kv))) cs) k = map_option f (map_of cs k)"
  by (induction cs) auto

lemma build_cliques_store_rel:
  "wf_parent parent \<Longrightarrow> cliques_rel n s cs cl \<Longrightarrow> n \<le> length s \<Longrightarrow>
   \<exists>built s'. build_cliques_store parent cs ps s = Some (built, s') \<and> keeps n s s'
     \<and> (case built of
           Inl e \<Rightarrow> build_cliques parent cl ps = Some (Inl e)
         | Inr cs' \<Rightarrow> \<exists>cl'. build_cliques parent cl ps = Some (Inr cl') \<and> cliques_rel n s' cs' cl')"
proof (induction ps arbitrary: parent cs cl s)
  case Nil
  then show ?case by (simp add: keeps_refl)
next
  case (Cons p ps)
  from find_parent_total [OF Cons.prems(1), of "Str p"] obtain r parent1 where
    f: "find_parent parent (Str p) = Some (r, parent1)" and r1: "wf_parent parent1"
    by (elim exE conjE)
  have cl: "cl = map (\<lambda>kv. (fst kv, strings_at s (snd kv))) cs"
    using Cons.prems(2) by (simp add: cliques_rel_def)
  have none: "map_of cl (key r) = None \<longleftrightarrow> map_of cs (key r) = None"
    unfolding cl by (simp add: map_of_map_values)
  show ?case
  proof (cases "map_of cs (key r) = None \<and> from_prototype (key r) \<noteq> Undefined")
    case True
    then have "build_cliques_store parent cs (p # ps) s = Some (Inl TypeError, s)"
      using f by simp
    moreover have "build_cliques parent cl (p # ps) = Some (Inl TypeError)"
      using f True none by (simp add: push_checked_def)
    moreover have "keeps n s s" using Cons.prems(3) by (rule keeps_refl)
    ultimately show ?thesis by simp
  next
    case False
    obtain cs1 s1 where pc: "push_clique_store (key r) p cs s = (cs1, s1)"
      by (cases "push_clique_store (key r) p cs s")
    from push_clique_store_rel [OF Cons.prems(2,3) pc]
    have rel1: "cliques_rel n s1 cs1 (push_clique (key r) p cl)" and k1: "keeps n s s1"
      by simp_all
    have n1: "n \<le> length s1" using k1 by (simp add: keeps_def)
    from Cons.IH [OF r1 rel1 n1] obtain built s' where
      ih: "build_cliques_store parent1 cs1 ps s1 = Some (built, s')" "keeps n s1 s'"
        "case built of
           Inl e \<Rightarrow> build_cliques parent1 (push_clique (key r) p cl) ps = Some (Inl e)
         | Inr cs' \<Rightarrow> \<exists>cl'. build_cliques parent1 (push_clique (key r) p cl) ps = Some (Inr cl')
               \<and> cliques_rel n s' cs' cl'"
      by (elim exE conjE)
    have st: "build_cliques_store parent cs (p # ps) s = Some (built, s')"
      using f pc ih(1) False by auto
    have pure: "build_cliques parent cl (p # ps)
        = build_cliques parent1 (push_clique (key r) p cl) ps"
      using f False none by (auto simp: push_checked_def)
    have "keeps n s s'" using k1 ih(2) by (rule keeps_trans)
    then show ?thesis using st ih(3) unfolding pure by (intro exI conjI)
  qed
qed

lemma insort_key_map_values:
  "insort_key g (h x) (map h ys) = map h (insort_key (\<lambda>y. g (h y)) x ys)"
  by (induction ys) simp_all

lemma sort_key_map_values: "sort_key g (map h xs) = map h (sort_key (\<lambda>y. g (h y)) xs)"
  by (induction xs) (simp_all add: insort_key_map_values)

lemma Object_values_map:
  "Object_values (map (\<lambda>kv. (fst kv, f (snd kv))) props) = map f (Object_values props)"
  by (simp add: Object_values_def filter_map sort_key_map_values comp_def)

lemma make_units_store_rel:
  "\<exists>built s'. make_units_store peopleRef togetherRef s = Some (built, s')
     \<and> keeps (length s) s s'
     \<and> (case built of
           Inl e \<Rightarrow> make_units (strings_at s peopleRef) (constraints_at s togetherRef) = Some (Inl e)
         | Inr u \<Rightarrow> \<exists>us. make_units (strings_at s peopleRef) (constraints_at s togetherRef)
                 = Some (Inr (map (strings_at s') us))
               \<and> u < length s' \<and> s' ! u = Refs us
               \<and> (\<forall>a\<in>set us. length s \<le> a \<and> a < u) \<and> length s \<le> u)"
proof -
  let ?persons = "strings_at s peopleRef"
  let ?together = "constraints_at s togetherRef"
  from union_all_correct [OF wf_init_parent, of ?persons ?together] obtain parent where
    u: "union_all (init_parent ?persons) ?together = Some parent" "wf_parent parent"
    by (elim exE conjE)
  have rel0: "cliques_rel (length s) s [] []" by (simp add: cliques_rel_def)
  from build_cliques_store_rel [OF u(2) rel0 order_refl, of ?persons] obtain built s1 where
    b: "build_cliques_store parent [] ?persons s = Some (built, s1)" "keeps (length s) s s1"
      "case built of
         Inl e \<Rightarrow> build_cliques parent [] ?persons = Some (Inl e)
       | Inr cs \<Rightarrow> \<exists>cl. build_cliques parent [] ?persons = Some (Inr cl)
             \<and> cliques_rel (length s) s1 cs cl"
    by (elim exE conjE)
  show ?thesis
  proof (cases built)
    case (Inl e)
    then have "make_units_store peopleRef togetherRef s = Some (Inl e, s1)"
      using u(1) b(1) by (simp add: make_units_store_def)
    moreover have "make_units ?persons ?together = Some (Inl e)"
      using u(1) b(3) Inl by (simp add: make_units_def)
    ultimately show ?thesis using b(2) by simp
  next
    case (Inr cs)
    then obtain cl where bc: "build_cliques parent [] ?persons = Some (Inr cl)"
      and rel: "cliques_rel (length s) s1 cs cl"
      using b(3) by auto
    let ?us = "Object_values cs"
    let ?s' = "s1 @ [Refs ?us]"
    have cl: "cl = map (\<lambda>kv. (fst kv, strings_at s1 (snd kv))) cs"
      and r: "\<forall>a\<in>snd ` set cs. length s \<le> a \<and> a < length s1"
      using rel by (simp_all add: cliques_rel_def)
    have set_us: "set ?us = snd ` set cs" by (rule Object_values_set)
    have len: "length s \<le> length s1" using b(2) by (simp add: keeps_def)
    have st: "make_units_store peopleRef togetherRef s = Some (Inr (length s1), ?s')"
      using u(1) b(1) Inr by (simp add: make_units_store_def alloc_def)
    have "map (strings_at ?s') ?us = map (strings_at s1) ?us"
      using r set_us by (intro map_cong) (auto simp: strings_at_def nth_append)
    also have "\<dots> = Object_values cl" unfolding cl by (rule Object_values_map [symmetric])
    finally have pure: "make_units ?persons ?together = Some (Inr (map (strings_at ?s') ?us))"
      using u(1) bc by (simp add: make_units_def)
    have k: "keeps (length s) s ?s'" using b(2) by (simp add: keeps_def)
    have rng: "\<forall>a\<in>set ?us. length s \<le> a \<and> a < length s1" using r set_us by simp
    have "\<exists>us. make_units ?persons ?together = Some (Inr (map (strings_at ?s') us))
        \<and> length s1 < length ?s' \<and> ?s' ! length s1 = Refs us
        \<and> (\<forall>a\<in>set us. length s \<le> a \<and> a < length s1) \<and> length s \<le> length s1"
      using pure rng len by (intro exI [of _ ?us]) simp
    then show ?thesis using st k by simp
  qed
qed

lemma alloc_groups_eq:
  "alloc_groups k s = ([length s..<length s + k], s @ replicate k (Strings []))"
proof (induction k arbitrary: s)
  case 0
  then show ?case by simp
next
  case (Suc k)
  have "[length s..<length s + Suc k] = length s # [Suc (length s)..<Suc (length s) + k]"
    by (simp add: upt_conv_Cons)
  then show ?case by (simp add: Suc alloc_def replicate_app_Cons_same)
qed

lemma shuffle_loop_map:
  "m \<le> length xs \<Longrightarrow>
   shuffle_loop m (map f xs) rnd pos
     = (map f (fst (shuffle_loop m xs rnd pos)), snd (shuffle_loop m xs rnd pos))"
proof (induction m arbitrary: xs pos)
  case 0
  then show ?case by simp
next
  case (Suc m)
  let ?r = "rnd pos mod Suc m"
  have r: "?r < length xs" using Suc.prems by (meson less_le_trans mod_less_divisor zero_less_Suc)
  have m: "m < length xs" using Suc.prems by simp
  have "(map f xs)[m := map f xs ! ?r, ?r := map f xs ! m] = map f (xs[m := xs ! ?r, ?r := xs ! m])"
    using r m by (simp add: map_update)
  then show ?case using Suc.IH [of "xs[m := xs ! ?r, ?r := xs ! m]" "Suc pos"] m
    by (simp add: Let_def)
qed

lemma shuffleArray_map:
  "shuffleArray (map f xs) rnd pos
     = (map f (fst (shuffleArray xs rnd pos)), snd (shuffleArray xs rnd pos))"
  by (simp add: shuffleArray_def shuffle_loop_map)

lemma shuffle_loop_store_eq:
  "array < length s \<Longrightarrow> s ! array = Refs xs \<Longrightarrow>
   shuffle_loop_store m array rnd pos s
     = (s[array := Refs (fst (shuffle_loop m xs rnd pos))], snd (shuffle_loop m xs rnd pos))"
proof (induction m arbitrary: xs s pos)
  case 0
  then show ?case by (metis list_update_id shuffle_loop.simps(1) shuffle_loop_store.simps(1) fst_conv snd_conv)
next
  case (Suc m)
  let ?r = "rnd pos mod Suc m"
  let ?ys = "xs[m := xs ! ?r, ?r := xs ! m]"
  let ?s = "s[array := Refs ?ys]"
  have "shuffle_loop_store m array rnd (Suc pos) ?s
      = (?s[array := Refs (fst (shuffle_loop m ?ys rnd (Suc pos)))],
         snd (shuffle_loop m ?ys rnd (Suc pos)))"
    using Suc.prems(1) by (intro Suc.IH) simp_all
  then show ?case using Suc.prems(2) by (simp add: Let_def refs_at_def)
qed

lemma shuffleArray_store_eq:
  assumes "array < length s" and "s ! array = Refs xs"
  shows "shuffleArray_store array rnd pos s
     = (s[array := Refs (fst (shuffleArray xs rnd pos))], snd (shuffleArray xs rnd pos))"
  using shuffle_loop_store_eq [OF assms, of "length xs" rnd pos] assms(2)
  by (simp add: shuffleArray_store_def shuffleArray_def refs_at_def)

lemma keeps_mono:
  assumes "keeps n s s'" and "m \<le> n"
  shows "keeps m s s'"
proof -
  have "take m s' = take m (take n s')" using assms(2) by (simp add: min_def)
  also have "\<dots> = take m (take n s)" using assms(1) by (simp add: keeps_def)
  also have "\<dots> = take m s" using assms(2) by (simp add: min_def)
  finally show ?thesis using assms by (simp add: keeps_def)
qed

lemma differs_on_strings_at: "differs_on W s s' \<Longrightarrow> a \<notin> W \<Longrightarrow> strings_at s' a = strings_at s a"
  by (simp add: differs_on_def strings_at_def)

lemma differs_on_refs_at: "differs_on W s s' \<Longrightarrow> a \<notin> W \<Longrightarrow> refs_at s' a = refs_at s a"
  by (simp add: differs_on_def refs_at_def)

lemma map_strings_at_push_store:
  assumes "distinct gs" and "\<forall>g\<in>set gs. g < length s" and "i < length gs"
  shows "map (strings_at (push_store (gs ! i) items s)) gs
    = (map (strings_at s) gs)[i := map (strings_at s) gs ! i @ items]"
proof (rule nth_equalityI)
  show "length (map (strings_at (push_store (gs ! i) items s)) gs)
      = length ((map (strings_at s) gs)[i := map (strings_at s) gs ! i @ items])"
    by simp
next
  fix j assume "j < length (map (strings_at (push_store (gs ! i) items s)) gs)"
  then have j: "j < length gs" by simp
  have gi: "gs ! i < length s" using assms(2,3) by simp
  have "gs ! j = gs ! i \<longleftrightarrow> j = i" using assms(1,3) j by (simp add: nth_eq_iff_index_eq)
  then show "map (strings_at (push_store (gs ! i) items s)) gs ! j
      = (map (strings_at s) gs)[i := map (strings_at s) gs ! i @ items] ! j"
    using j assms(3) gi by (simp add: strings_at_push_store nth_list_update)
qed

lemma scan_groups_store_rel:
  assumes "refs_at s tg = gs" and "distinct gs" and "\<forall>g\<in>set gs. g < length s"
    and "constraints_at s aa = apart" and "set order \<subseteq> {0..<length gs}"
  shows "case scan_groups apart (map (strings_at s) gs) (strings_at s unit) order of
           None \<Rightarrow> scan_groups_store aa tg unit order s = None
         | Some tgp \<Rightarrow> \<exists>s'. scan_groups_store aa tg unit order s = Some s'
               \<and> differs_on (set gs) s s' \<and> map (strings_at s') gs = tgp"
  using assms(5)
proof (induction order)
  case Nil
  then show ?case by simp
next
  case (Cons i order)
  have i: "i < length gs" using Cons.prems by simp
  have gi: "map (strings_at s) gs ! i = strings_at s (gs ! i)" using i by simp
  show ?case
  proof (cases "groupHasApartPerson apart (strings_at s (gs ! i)) (strings_at s unit)")
    case True
    have "set order \<subseteq> {0..<length gs}" using Cons.prems by simp
    from Cons.IH [OF this] show ?thesis using True assms(1,4) gi
      by (simp split: option.splits)
  next
    case False
    let ?s' = "push_store (gs ! i) (strings_at s unit) s"
    have "scan_groups_store aa tg unit (i # order) s = Some ?s'"
      using False assms(1,4) by simp
    moreover have "differs_on (set gs) s ?s'" using i by (intro differs_on_push_store) simp
    moreover have "map (strings_at ?s') gs
        = (map (strings_at s) gs)[i := map (strings_at s) gs ! i @ strings_at s unit]"
      using assms(2,3) i by (rule map_strings_at_push_store)
    ultimately show ?thesis using False gi by simp
  qed
qed

lemma place_units_store_rel:
  assumes "tg \<notin> set gs" and "distinct gs"
  shows "refs_at s tg = gs \<Longrightarrow> \<forall>g\<in>set gs. g < length s \<Longrightarrow> set us \<inter> set gs = {} \<Longrightarrow>
    \<forall>s'. differs_on (set gs) s s' \<longrightarrow> constraints_at s' aa = apart \<Longrightarrow>
    \<exists>ok s'. place_units_store aa tg us s = (ok, s') \<and> differs_on (set gs) s s'
      \<and> (case place_units apart (map (strings_at s) gs) (map (strings_at s) us) of
            None \<Rightarrow> \<not> ok
          | Some tgp \<Rightarrow> ok \<and> map (strings_at s') gs = tgp)"
proof (induction us arbitrary: s)
  case Nil
  then show ?case by (auto simp: differs_on_refl)
next
  case (Cons unit us)
  let ?tgm = "map (strings_at s) gs"
  have here: "constraints_at s aa = apart" using Cons.prems(4) by (simp add: differs_on_refl)
  have ord: "set (groupOrder ?tgm) \<subseteq> {0..<length gs}" by (simp add: groupOrder_set)
  note sc = scan_groups_store_rel [OF Cons.prems(1) assms(2) Cons.prems(2) here ord, of unit]
  show ?case
  proof (cases "scan_groups apart ?tgm (strings_at s unit) (groupOrder ?tgm)")
    case None
    then have "scan_groups_store aa tg unit (groupOrder ?tgm) s = None" using sc by simp
    then have "place_units_store aa tg (unit # us) s = (False, s)"
      using Cons.prems(1) by simp
    moreover have "differs_on (set gs) s s" by (rule differs_on_refl)
    moreover have "case place_units apart ?tgm (map (strings_at s) (unit # us)) of
        None \<Rightarrow> \<not> False | Some tgp \<Rightarrow> False \<and> map (strings_at s) gs = tgp"
      using None by simp
    ultimately show ?thesis by (intro exI conjI)
  next
    case (Some tgp)
    then obtain s1 where s1: "scan_groups_store aa tg unit (groupOrder ?tgm) s = Some s1"
      "differs_on (set gs) s s1" "map (strings_at s1) gs = tgp"
      using sc by auto
    have refs1: "refs_at s1 tg = gs"
      using differs_on_refs_at [OF s1(2) assms(1)] Cons.prems(1) by simp
    have len1: "\<forall>g\<in>set gs. g < length s1" using Cons.prems(2) s1(2) by (simp add: differs_on_def)
    have dis1: "set us \<inter> set gs = {}" using Cons.prems(3) by auto
    have ap1: "\<forall>s'. differs_on (set gs) s1 s' \<longrightarrow> constraints_at s' aa = apart"
    proof (intro allI impI)
      fix s' assume "differs_on (set gs) s1 s'"
      with s1(2) have "differs_on (set gs) s s'" by (rule differs_on_trans)
      then show "constraints_at s' aa = apart" using Cons.prems(4) by simp
    qed
    from Cons.IH [OF refs1 len1 dis1 ap1] obtain ok s' where
      ih: "place_units_store aa tg us s1 = (ok, s')" "differs_on (set gs) s1 s'"
        "case place_units apart (map (strings_at s1) gs) (map (strings_at s1) us) of
            None \<Rightarrow> \<not> ok | Some tgp \<Rightarrow> ok \<and> map (strings_at s') gs = tgp"
      by (elim exE conjE)
    have m_eq: "map (strings_at s1) us = map (strings_at s) us"
      using dis1 by (intro map_cong differs_on_strings_at [OF s1(2)]) auto
    have pure: "place_units apart ?tgm (map (strings_at s) (unit # us))
        = place_units apart (map (strings_at s1) gs) (map (strings_at s1) us)"
      by (simp add: Some s1(3) m_eq)
    have "place_units_store aa tg (unit # us) s = (ok, s')"
      using s1(1) ih(1) Cons.prems(1) by simp
    moreover have "differs_on (set gs) s s'" using s1(2) ih(2) by (rule differs_on_trans)
    moreover have "case place_units apart ?tgm (map (strings_at s) (unit # us)) of
        None \<Rightarrow> \<not> ok | Some tgp \<Rightarrow> ok \<and> map (strings_at s') gs = tgp"
      using ih(3) unfolding pure .
    ultimately show ?thesis by (intro exI conjI)
  qed
qed

lemma fold_sort_cells:
  "distinct hs \<Longrightarrow> \<forall>g\<in>set hs. g < length s \<Longrightarrow>
   length (fold (\<lambda>g s. s[g := Strings (sort (strings_at s g))]) hs s) = length s
   \<and> (\<forall>a. fold (\<lambda>g s. s[g := Strings (sort (strings_at s g))]) hs s ! a
          = (if a \<in> set hs then Strings (sort (strings_at s a)) else s ! a))"
proof (induction hs arbitrary: s)
  case Nil
  then show ?case by simp
next
  case (Cons h hs)
  let ?s1 = "s[h := Strings (sort (strings_at s h))]"
  have h: "h < length s" "h \<notin> set hs" using Cons.prems by simp_all
  have ih: "length (fold (\<lambda>g s. s[g := Strings (sort (strings_at s g))]) hs ?s1) = length ?s1
      \<and> (\<forall>a. fold (\<lambda>g s. s[g := Strings (sort (strings_at s g))]) hs ?s1 ! a
          = (if a \<in> set hs then Strings (sort (strings_at ?s1 a)) else ?s1 ! a))"
    using Cons.prems by (intro Cons.IH) simp_all
  have same: "strings_at ?s1 a = strings_at s a" if "a \<in> set hs" for a
  proof -
    have "a \<noteq> h" using that h(2) by auto
    then show ?thesis by (simp add: strings_at_def)
  qed
  have "fold (\<lambda>g s. s[g := Strings (sort (strings_at s g))]) (h # hs) s ! a
      = (if a \<in> set (h # hs) then Strings (sort (strings_at s a)) else s ! a)" for a
  proof (cases "a \<in> set hs")
    case True
    then show ?thesis using ih same by simp
  next
    case False
    then show ?thesis using ih h(1) by (cases "a = h") simp_all
  qed
  then show ?case using ih by simp
qed

lemma sort_groups_store_rel:
  assumes "distinct gs" and "\<forall>g\<in>set gs. g < length s"
  shows "differs_on (set gs) s (sort_groups_store gs s)
    \<and> map (strings_at (sort_groups_store gs s)) gs = map sort (map (strings_at s) gs)"
proof -
  note f = fold_sort_cells [OF assms, folded sort_groups_store_def]
  have "differs_on (set gs) s (sort_groups_store gs s)" using f by (simp add: differs_on_def)
  moreover have "map (strings_at (sort_groups_store gs s)) gs = map sort (map (strings_at s) gs)"
    using f by (simp add: strings_at_def)
  ultimately show ?thesis by simp
qed

lemma one_attempt_store_rel:
  assumes u: "u < length s1" "s1 ! u = Refs us" "\<forall>a\<in>set us. a < u" and n: "n \<le> u"
    and ap: "\<forall>s'. keeps n s1 s' \<longrightarrow> constraints_at s' ar = apart"
  shows "\<exists>ok tg pos' s5. one_attempt_store g ar u rnd pos s1 = (ok, tg, pos', s5)
     \<and> keeps n s1 s5
     \<and> pos' = snd (one_attempt g apart (map (strings_at s1) us) rnd pos)
     \<and> (case fst (one_attempt g apart (map (strings_at s1) us) rnd pos) of
          None \<Rightarrow> \<not> ok
        | Some tgp \<Rightarrow> ok \<and> (\<exists>gs. tg < length s5 \<and> s5 ! tg = Refs gs \<and> distinct gs
              \<and> tg \<notin> set gs \<and> (\<forall>g\<in>set gs. n \<le> g \<and> g < length s5)
              \<and> map (strings_at s5) gs = tgp))"
proof -
  define k where "k = nat g"
  define gs where "gs = [length s1..<length s1 + k]"
  define s2 where "s2 = s1 @ replicate k (Strings [])"
  define tg where "tg = length s2"
  define s3 where "s3 = s2 @ [Refs gs]"
  define sh where "sh = fst (shuffleArray us rnd pos)"
  define pos' where "pos' = snd (shuffleArray us rnd pos)"
  define s4 where "s4 = s3[u := Refs sh]"
  have n1: "n \<le> length s1" using n u(1) by simp
  have len2: "length s2 = length s1 + k" by (simp add: s2_def)
  have len3: "length s3 = length s1 + k + 1" by (simp add: s3_def len2)
  have len4: "length s4 = length s1 + k + 1" by (simp add: s4_def len3)
  have ag: "alloc_groups (nat g) s1 = (gs, s2)"
    by (simp add: alloc_groups_eq gs_def s2_def k_def)
  have al: "alloc s2 (Refs gs) = (s3, tg)" by (simp add: alloc_def s3_def tg_def)
  have u3: "u < length s3" "s3 ! u = Refs us"
    using u(1,2) by (simp_all add: s3_def s2_def nth_append)
  have shf: "shuffleArray_store u rnd pos s3 = (s4, pos')"
    using shuffleArray_store_eq [OF u3, of rnd pos] by (simp add: s4_def sh_def pos'_def)
  have refs_u: "refs_at s4 u = sh" using u3(1) by (simp add: refs_at_def s4_def)
  have tg_u: "tg \<noteq> u" using u(1) by (simp add: tg_def len2)
  have tg4: "s4 ! tg = Refs gs" using tg_u by (simp add: s4_def s3_def tg_def)
  have refs_tg: "refs_at s4 tg = gs" using tg4 by (simp add: refs_at_def)
  have dg: "distinct gs" by (simp add: gs_def)
  have tg_gs: "tg \<notin> set gs" by (simp add: gs_def tg_def len2)
  have gs_rng: "\<forall>g\<in>set gs. length s1 \<le> g \<and> g < length s4" by (auto simp: gs_def len4)
  have set_sh: "set sh = set us"
    using shuffleArray_mset [of us rnd pos] unfolding sh_def by (rule mset_eq_setD)
  have sh_rng: "\<forall>a\<in>set sh. a < u" using u(3) set_sh by simp
  have disj: "set sh \<inter> set gs = {}" using sh_rng u(1) by (auto simp: gs_def)
  have k13: "keeps n s1 s3" using n1 by (simp add: keeps_def s3_def s2_def)
  have k34: "keeps n s3 s4" unfolding s4_def using n n1 by (intro keeps_update) (simp_all add: len3)
  have k14: "keeps n s1 s4" using k13 k34 by (rule keeps_trans)
  have later: "keeps n s1 s'" if "differs_on (set gs) s4 s'" for s'
  proof -
    have "n \<le> length s4" using n1 by (simp add: len4)
    moreover have "\<forall>a\<in>set gs. n \<le> a" using n1 by (auto simp: gs_def)
    ultimately have "keeps n s4 s'" using that by (intro keeps_differs_on)
    with k14 show ?thesis by (rule keeps_trans)
  qed
  have ap4: "\<forall>s'. differs_on (set gs) s4 s' \<longrightarrow> constraints_at s' ar = apart"
    using later ap by simp
  have gl: "\<forall>g\<in>set gs. g < length s4" using gs_rng by simp
  from place_units_store_rel [OF tg_gs dg refs_tg gl disj ap4] obtain ok s5 where
    pl: "place_units_store ar tg sh s4 = (ok, s5)" "differs_on (set gs) s4 s5"
      "case place_units apart (map (strings_at s4) gs) (map (strings_at s4) sh) of
         None \<Rightarrow> \<not> ok | Some tgp \<Rightarrow> ok \<and> map (strings_at s5) gs = tgp"
    by (elim exE conjE)
  have empty: "map (strings_at s4) gs = replicate k []"
  proof (rule nth_equalityI)
    show "length (map (strings_at s4) gs) = length (replicate k ([] :: string list))"
      by (simp add: gs_def)
  next
    fix i assume "i < length (map (strings_at s4) gs)"
    then have i: "i < k" by (simp add: gs_def)
    then have gi: "gs ! i = length s1 + i" by (simp add: gs_def)
    have "length s1 + i \<noteq> u" using u(1) by simp
    then have "s4 ! (length s1 + i) = Strings []"
      using i by (simp add: s4_def s3_def s2_def nth_append)
    then show "map (strings_at s4) gs ! i = replicate k [] ! i"
      using i gi by (simp add: strings_at_def gs_def)
  qed
  have same: "strings_at s4 a = strings_at s1 a" if "a \<in> set sh" for a
  proof -
    have "a < u" using that sh_rng by simp
    then have "s4 ! a = s1 ! a" using u(1) by (simp add: s4_def s3_def s2_def nth_append)
    then show ?thesis by (simp add: strings_at_def)
  qed
  have units: "map (strings_at s4) sh = fst (shuffleArray (map (strings_at s1) us) rnd pos)"
  proof -
    have "map (strings_at s4) sh = map (strings_at s1) sh" using same by (intro map_cong) simp_all
    then show ?thesis by (simp add: shuffleArray_map sh_def)
  qed
  have pos: "pos' = snd (shuffleArray (map (strings_at s1) us) rnd pos)"
    by (simp add: shuffleArray_map pos'_def)
  have pure: "one_attempt g apart (map (strings_at s1) us) rnd pos
      = (place_units apart (map (strings_at s4) gs) (map (strings_at s4) sh), pos')"
    unfolding units pos empty by (simp add: one_attempt_def k_def split: prod.splits)
  have st: "one_attempt_store g ar u rnd pos s1 = (ok, tg, pos', s5)"
    using ag al shf refs_u pl(1) by (simp add: one_attempt_store_def)
  have k15: "keeps n s1 s5" using pl(2) by (rule later)
  have len5: "length s5 = length s4" using pl(2) by (simp add: differs_on_def)
  have tg5: "s5 ! tg = Refs gs" using pl(2) tg_gs tg4 by (simp add: differs_on_def)
  have tgl: "tg < length s5" by (simp add: len5 len4 tg_def len2)
  have rng5: "\<forall>g\<in>set gs. n \<le> g \<and> g < length s5" using gs_rng n1 len5 by auto
  have "case fst (one_attempt g apart (map (strings_at s1) us) rnd pos) of
      None \<Rightarrow> \<not> ok
    | Some tgp \<Rightarrow> ok \<and> (\<exists>gs. tg < length s5 \<and> s5 ! tg = Refs gs \<and> distinct gs
          \<and> tg \<notin> set gs \<and> (\<forall>g\<in>set gs. n \<le> g \<and> g < length s5)
          \<and> map (strings_at s5) gs = tgp)"
  proof (cases "place_units apart (map (strings_at s4) gs) (map (strings_at s4) sh)")
    case None
    then show ?thesis using pl(3) by (simp add: pure)
  next
    case (Some tgp)
    then have "ok" "map (strings_at s5) gs = tgp" using pl(3) by simp_all
    then have "ok \<and> (\<exists>gs. tg < length s5 \<and> s5 ! tg = Refs gs \<and> distinct gs
          \<and> tg \<notin> set gs \<and> (\<forall>g\<in>set gs. n \<le> g \<and> g < length s5)
          \<and> map (strings_at s5) gs = tgp)"
      using tgl tg5 dg tg_gs rng5 by (intro conjI exI [of _ gs])
    then show ?thesis using Some by (simp add: pure)
  qed
  moreover have "pos' = snd (one_attempt g apart (map (strings_at s1) us) rnd pos)"
    by (simp add: pure)
  ultimately show ?thesis using st k15 by (intro exI conjI)
qed

lemma deliver_store_rel:
  assumes "tg < length s5" and "s5 ! tg = Refs gs" and "distinct gs" and "tg \<notin> set gs"
    and "\<forall>g\<in>set gs. n \<le> g \<and> g < length s5" and "n \<le> length s5"
  shows "\<exists>s7. deliver_store tg s5 = (map sort (map (strings_at s5) gs), s7) \<and> keeps n s5 s7"
proof -
  define s6 where "s6 = sort_groups_store gs s5"
  have gl: "\<forall>g\<in>set gs. g < length s5" using assms(5) by simp
  from sort_groups_store_rel [OF assms(3) gl]
  have d: "differs_on (set gs) s5 s6" and m: "map (strings_at s6) gs = map sort (map (strings_at s5) gs)"
    by (simp_all add: s6_def)
  have r5: "refs_at s5 tg = gs" using assms(2) by (simp add: refs_at_def)
  have r6: "refs_at s6 tg = gs" using differs_on_refs_at [OF d assms(4)] r5 by simp
  have len6: "length s6 = length s5" using d by (simp add: differs_on_def)
  let ?s7 = "s6 @ [Refs gs]"
  have r7: "refs_at ?s7 (length s6) = gs" by (simp add: refs_at_def)
  have "map (strings_at ?s7) gs = map (strings_at s6) gs"
    using gl len6 by (intro map_cong) (simp_all add: strings_at_def nth_append)
  then have res: "deliver_store tg s5 = (map sort (map (strings_at s5) gs), ?s7)"
    using r5 r6 r7 m by (simp add: deliver_store_def alloc_def s6_def [symmetric] Let_def)
  have "\<forall>a\<in>set gs. n \<le> a" using assms(5) by auto
  with assms(6) d have "keeps n s5 s6" by (rule keeps_differs_on)
  moreover have "keeps n s6 ?s7" using assms(6) len6 by (intro keeps_append) simp
  ultimately have "keeps n s5 ?s7" by (rule keeps_trans)
  with res show ?thesis by (intro exI conjI)
qed

lemma list_ex_map: "list_ex P (map f xs) = list_ex (\<lambda>x. P (f x)) xs"
  by (induction xs) simp_all

text \<open>
  The attempt loop over the store returns what the pure loop returns on the values of
  the inputs, and changes no cell that existed when the handler was called.
\<close>

lemma attempt_loop_store_rel:
  assumes ok: "inputs_ok s0 pr ar tr"
  shows "keeps (length s0) s0 s \<Longrightarrow>
    \<exists>res pos' s'. attempt_loop_store attempt g pr ar tr rnd pos s = Some (res, pos', s')
      \<and> keeps (length s0) s0 s'
      \<and> attempt_loop attempt g (strings_at s0 pr) (constraints_at s0 ar) (constraints_at s0 tr)
            rnd pos = Some (res, pos')"
proof (induction "50 - attempt" arbitrary: attempt pos s)
  case 0
  then have "\<not> attempt < 50" by simp
  then have "attempt_loop_store attempt g pr ar tr rnd pos s = Some (Inl ErrorFailedConstraints, pos, s)"
    "attempt_loop attempt g (strings_at s0 pr) (constraints_at s0 ar) (constraints_at s0 tr)
       rnd pos = Some (Inl ErrorFailedConstraints, pos)"
    by (simp_all add: attempt_loop_store.simps attempt_loop.simps)
  then show ?case using "0.prems" by (intro exI conjI)
next
  case (Suc m)
  let ?persons = "strings_at s0 pr" and ?apart = "constraints_at s0 ar"
    and ?together = "constraints_at s0 tr"
  have lt: "attempt < 50" using Suc.hyps(2) by simp
  have pr: "pr < length s0" and ca: "constraints_ok s0 ar" and ct: "constraints_ok s0 tr"
    using ok by (simp_all add: inputs_ok_def)
  have cons: "constraints_at s' ar = ?apart" "constraints_at s' tr = ?together"
    "strings_at s' pr = ?persons" if "keeps (length s0) s0 s'" for s'
    using that ca ct pr by (simp_all add: keeps_constraints_at keeps_strings_at)
  have l0: "length s0 \<le> length s" using Suc.prems by (simp add: keeps_def)
  from make_units_store_rel [of pr tr s] obtain built s1 where
    mu: "make_units_store pr tr s = Some (built, s1)" and k1: "keeps (length s) s s1" and
    b: "case built of
           Inl e \<Rightarrow> make_units (strings_at s pr) (constraints_at s tr) = Some (Inl e)
         | Inr u \<Rightarrow> \<exists>us. make_units (strings_at s pr) (constraints_at s tr)
                 = Some (Inr (map (strings_at s1) us))
               \<and> u < length s1 \<and> s1 ! u = Refs us
               \<and> (\<forall>a\<in>set us. length s \<le> a \<and> a < u) \<and> length s \<le> u"
    by (elim exE conjE)
  have "keeps (length s0) s s1" using k1 l0 by (rule keeps_mono)
  with Suc.prems have k01: "keeps (length s0) s0 s1" by (rule keeps_trans)
  show ?case
  proof (cases built)
    case (Inl e)
    then have e: "built = Inl TypeError" by (cases e) simp
    have "make_units ?persons ?together = Some (Inl TypeError)"
      using b e cons(2,3) [OF Suc.prems] by simp
    then have "attempt_loop attempt g ?persons ?apart ?together rnd pos
        = Some (Inl UncaughtTypeError, pos)"
      using lt by (rule attempt_loop_throws)
    moreover have "attempt_loop_store attempt g pr ar tr rnd pos s
        = Some (Inl UncaughtTypeError, pos, s1)"
      using lt mu e by (simp add: attempt_loop_store.simps)
    ultimately show ?thesis using k01 by (intro exI conjI)
  next
    case (Inr u)
    then obtain us where
      pm: "make_units ?persons ?together = Some (Inr (map (strings_at s1) us))" and
      u: "u < length s1" "s1 ! u = Refs us" "\<forall>a\<in>set us. a < u" and lu: "length s \<le> u"
      using b cons(2,3) [OF Suc.prems] by auto
    let ?units = "map (strings_at s1) us"
    have nu: "length s0 \<le> u" using l0 lu by simp
    have refs: "refs_at s1 u = us" using u(2) by (simp add: refs_at_def)
    have over: "list_ex (\<lambda>unit. exceeds_ceiling (length (strings_at s1 unit))
        (length (strings_at s1 pr)) g) (refs_at s1 u) = oversized ?persons g ?units"
      using cons(3) [OF k01] by (simp add: refs oversized_def list_ex_map)
    note unf = attempt_loop_unfold [OF pm, of attempt g ?apart rnd pos]
    show ?thesis
    proof (cases "oversized ?persons g ?units")
      case True
      have "attempt_loop_store attempt g pr ar tr rnd pos s = Some (Inl ErrorCliqueSize, pos, s1)"
        using lt mu Inr over True by (simp add: attempt_loop_store.simps)
      moreover have "attempt_loop attempt g ?persons ?apart ?together rnd pos
          = Some (Inl ErrorCliqueSize, pos)"
        using lt True by (simp add: unf)
      ultimately show ?thesis using k01 by (intro exI conjI)
    next
      case False
      have ap: "\<forall>s'. keeps (length s0) s1 s' \<longrightarrow> constraints_at s' ar = ?apart"
      proof (intro allI impI)
        fix s' assume "keeps (length s0) s1 s'"
        with k01 have "keeps (length s0) s0 s'" by (rule keeps_trans)
        then show "constraints_at s' ar = ?apart" by (rule cons(1))
      qed
      from one_attempt_store_rel [OF u nu ap, of g rnd pos] obtain possible tg pos' s5 where
        oa: "one_attempt_store g ar u rnd pos s1 = (possible, tg, pos', s5)" and
        k15: "keeps (length s0) s1 s5" and
        p: "pos' = snd (one_attempt g ?apart ?units rnd pos)" and
        c: "case fst (one_attempt g ?apart ?units rnd pos) of
              None \<Rightarrow> \<not> possible
            | Some tgp \<Rightarrow> possible \<and> (\<exists>gs. tg < length s5 \<and> s5 ! tg = Refs gs \<and> distinct gs
                  \<and> tg \<notin> set gs \<and> (\<forall>g\<in>set gs. length s0 \<le> g \<and> g < length s5)
                  \<and> map (strings_at s5) gs = tgp)"
        by (elim exE conjE)
      have p': "pos' = pos + length ?units" using p by (simp only: one_attempt_pos)
      have k05: "keeps (length s0) s0 s5" using k01 k15 by (rule keeps_trans)
      show ?thesis
      proof (cases "fst (one_attempt g ?apart ?units rnd pos)")
        case None
        then have np: "\<not> possible" using c by simp
        have "m = 50 - (attempt + 1)" using Suc.hyps(2) by simp
        from Suc.hyps(1) [OF this k05, of pos'] obtain res pos'' s' where
          ih: "attempt_loop_store (attempt + 1) g pr ar tr rnd pos' s5 = Some (res, pos'', s')"
            "keeps (length s0) s0 s'"
            "attempt_loop (attempt + 1) g ?persons ?apart ?together rnd pos' = Some (res, pos'')"
          by (elim exE conjE)
        have "attempt_loop_store attempt g pr ar tr rnd pos s = Some (res, pos'', s')"
          using lt mu Inr over False oa np ih(1) by (simp add: attempt_loop_store.simps)
        moreover have "attempt_loop attempt g ?persons ?apart ?together rnd pos = Some (res, pos'')"
          using lt False None ih(3) p' by (simp add: unf)
        ultimately show ?thesis using ih(2) by (intro exI conjI)
      next
        case (Some tgp)
        then obtain gs where possible: "possible" and
          g: "tg < length s5" "s5 ! tg = Refs gs" "distinct gs" "tg \<notin> set gs"
            "\<forall>g\<in>set gs. length s0 \<le> g \<and> g < length s5" "map (strings_at s5) gs = tgp"
          using c by auto
        have l5: "length s0 \<le> length s5" using k05 by (simp add: keeps_def)
        from deliver_store_rel [OF g(1-5) l5] obtain s7 where
          d: "deliver_store tg s5 = (map sort tgp, s7)" "keeps (length s0) s5 s7"
          unfolding g(6) by (elim exE conjE)
        have "attempt_loop_store attempt g pr ar tr rnd pos s = Some (Inr (map sort tgp), pos', s7)"
          using lt mu Inr over False oa possible d(1) by (simp add: attempt_loop_store.simps)
        moreover have "attempt_loop attempt g ?persons ?apart ?together rnd pos
            = Some (Inr (map sort tgp), pos')"
          using lt False Some p' by (simp add: unf)
        moreover have "keeps (length s0) s0 s7" using k05 d(2) by (rule keeps_trans)
        ultimately show ?thesis by (intro exI conjI)
      qed
    qed
  qed
qed

text \<open>
  C9.  The handler is called with the addresses of \<open>people\<close>, \<open>apartConstraints\<close> and
  \<open>togetherConstraints\<close> in a store that holds them.  For every outcome (groups, an error,
  or the uncaught \<open>TypeError\<close>) and every random source, every cell of that store is the
  same afterwards, so the three inputs read the same; and the outcome and the number of
  draws consumed are those of the function \<open>handleGenerateGroups\<close> on the values of the
  inputs and the random sequence.
\<close>

theorem inputs_not_mutated:
  assumes "inputs_ok s peopleRef apartRef togetherRef"
  shows "\<exists>res pos' s'.
     handleGenerateGroups_store naming finalGroupCount peopleRef apartRef togetherRef rnd pos s
       = Some (res, pos', s')
     \<and> length s \<le> length s' \<and> take (length s) s' = s
     \<and> strings_at s' peopleRef = strings_at s peopleRef
     \<and> constraints_at s' apartRef = constraints_at s apartRef
     \<and> constraints_at s' togetherRef = constraints_at s togetherRef
     \<and> handleGenerateGroups naming finalGroupCount (strings_at s peopleRef)
          (constraints_at s apartRef) (constraints_at s togetherRef) rnd pos = Some (res, pos')"
proof -
  let ?persons = "strings_at s peopleRef" and ?apart = "constraints_at s apartRef"
    and ?together = "constraints_at s togetherRef"
  have pr: "peopleRef < length s" and ca: "constraints_ok s apartRef"
    and ct: "constraints_ok s togetherRef"
    using assms by (simp_all add: inputs_ok_def)
  have k0: "keeps (length s) s s" by (simp add: keeps_refl)
  have main: "\<exists>res pos' s'.
     handleGenerateGroups_store naming finalGroupCount peopleRef apartRef togetherRef rnd pos s
       = Some (res, pos', s')
     \<and> keeps (length s) s s'
     \<and> handleGenerateGroups naming finalGroupCount ?persons ?apart ?together rnd pos
         = Some (res, pos')"
  proof (cases "(naming = Custom \<and> finalGroupCount < 2) \<or> int (length ?persons) < finalGroupCount
      \<or> conflict_apart ?apart ?together \<noteq> None")
    case True
    then consider (custom) "naming = Custom \<and> finalGroupCount < 2"
      | (few) "\<not> (naming = Custom \<and> finalGroupCount < 2)"
          "int (length ?persons) < finalGroupCount"
      | (conflict) a b where "\<not> (naming = Custom \<and> finalGroupCount < 2)"
          "\<not> int (length ?persons) < finalGroupCount"
          "conflict_apart ?apart ?together = Some (a, b)"
      by (cases "conflict_apart ?apart ?together") auto
    then have "\<exists>e.
      handleGenerateGroups_store naming finalGroupCount peopleRef apartRef togetherRef rnd pos s
         = Some (Inl e, pos, s)
      \<and> handleGenerateGroups naming finalGroupCount ?persons ?apart ?together rnd pos
         = Some (Inl e, pos)"
      by cases (simp_all add: handleGenerateGroups_store_def handleGenerateGroups_def)
    then show ?thesis using k0 by (elim exE conjE) (intro exI conjI)
  next
    case False
    then have nc: "conflict_apart ?apart ?together = None"
      and few: "\<not> int (length ?persons) < finalGroupCount"
      and custom: "\<not> (naming = Custom \<and> finalGroupCount < 2)"
      by (cases "conflict_apart ?apart ?together"; simp)+
    have "handleGenerateGroups_store naming finalGroupCount peopleRef apartRef togetherRef
        rnd pos s = attempt_loop_store 0 finalGroupCount peopleRef apartRef togetherRef rnd pos s"
      "handleGenerateGroups naming finalGroupCount ?persons ?apart ?together rnd pos
        = attempt_loop 0 finalGroupCount ?persons ?apart ?together rnd pos"
      using nc few custom by (auto simp: handleGenerateGroups_store_def handleGenerateGroups_def)
    then show ?thesis
      using attempt_loop_store_rel [OF assms k0, of 0 finalGroupCount rnd pos] by simp
  qed
  then obtain res pos' s' where
    r: "handleGenerateGroups_store naming finalGroupCount peopleRef apartRef togetherRef rnd pos s
       = Some (res, pos', s')"
      "handleGenerateGroups naming finalGroupCount ?persons ?apart ?together rnd pos
         = Some (res, pos')"
    and k: "keeps (length s) s s'"
    by (elim exE conjE)
  have "length s \<le> length s'" "take (length s) s' = s" using k by (simp_all add: keeps_def)
  moreover have "strings_at s' peopleRef = ?persons" using k pr by (rule keeps_strings_at)
  moreover have "constraints_at s' apartRef = ?apart" using k ca by (rule keeps_constraints_at)
  moreover have "constraints_at s' togetherRef = ?together"
    using k ct by (rule keeps_constraints_at)
  ultimately show ?thesis using r by (intro exI conjI)
qed

theorem inputs_not_mutated_witness:
  "inputs_ok [Strings [''A'', ''B'', ''C'', ''D''], Strings [''A'', ''B''], ConstraintObj 1,
       Refs [], Refs [2]] 0 3 4
   \<and> (\<exists>s'. handleGenerateGroups_store Count 2 0 3 4 zero_draws 0
          [Strings [''A'', ''B'', ''C'', ''D''], Strings [''A'', ''B''], ConstraintObj 1,
           Refs [], Refs [2]]
        = Some (Inr [[''A'', ''B'', ''C''], [''D'']], 3, s')
      \<and> take 5 s' = [Strings [''A'', ''B'', ''C'', ''D''], Strings [''A'', ''B''],
           ConstraintObj 1, Refs [], Refs [2]])"
proof -
  let ?s = "[Strings [''A'', ''B'', ''C'', ''D''], Strings [''A'', ''B''], ConstraintObj 1,
    Refs [], Refs [2]]"
  have ok: "inputs_ok ?s 0 3 4" by (simp add: inputs_ok_def constraints_ok_def refs_at_def)
  have p: "strings_at ?s 0 = [''A'', ''B'', ''C'', ''D'']" by (simp add: strings_at_def)
  have a: "constraints_at ?s 3 = []" by (simp add: constraints_at_def refs_at_def)
  have t: "constraints_at ?s 4 = [\<lparr>people = [''A'', ''B'']\<rparr>]"
    by (simp add: constraints_at_def refs_at_def constraint_at_def strings_at_def)
  have run: "handleGenerateGroups Count 2 [''A'', ''B'', ''C'', ''D''] []
      [\<lparr>people = [''A'', ''B'']\<rparr>] zero_draws 0 = Some (Inr [[''A'', ''B'', ''C''], [''D'']], 3)"
    by code_simp
  from inputs_not_mutated [OF ok, of Count 2 zero_draws 0] obtain res pos' s' where
    st: "handleGenerateGroups_store Count 2 0 3 4 zero_draws 0 ?s = Some (res, pos', s')" and
    tk: "take (length ?s) s' = ?s" and
    pu: "handleGenerateGroups Count 2 (strings_at ?s 0) (constraints_at ?s 3)
           (constraints_at ?s 4) zero_draws 0 = Some (res, pos')"
    by (elim exE conjE)
  have "res = Inr [[''A'', ''B'', ''C''], [''D'']]" "pos' = 3"
    using pu run unfolding p a t by simp_all
  then have "handleGenerateGroups_store Count 2 0 3 4 zero_draws 0 ?s
      = Some (Inr [[''A'', ''B'', ''C''], [''D'']], 3, s')"
    using st by simp
  moreover have "length ?s = 5" by simp
  then have "take 5 s' = ?s" using tk by (simp only:)
  ultimately show ?thesis using ok by (intro conjI exI)
qed

end
